theory Spec2Isabelle
  imports Main "HOL-Library.Word"
begin

unbundle bit_operations_syntax

section \<open>The error buffer\<close>

text \<open>
  \<^verbatim>\<open>static char grci_err_buf[128]\<close> is one process-wide C string. It is modelled as a
  \<open>string\<close> that is passed to and returned from every operation that may touch it;
  \<open>strlen(grci_err_buf) == 0\<close> is \<open>length buf = 0\<close>. The 128-byte capacity is not
  modelled: \<open>sprintf\<close> beyond it is undefined behaviour of the C program.
\<close>

datatype grci_err_type = GRCI_ERR_COMP | GRCI_ERR_SIM | GRCI_ERR_MEM | GRCI_ERR_INTERN

text \<open>The decimal rendering that \<open>%d\<close> gives.\<close>

fun show_nat :: "nat \<Rightarrow> string" where
  "show_nat n =
     (if n < 10 then [''0123456789'' ! n]
      else show_nat (n div 10) @ [''0123456789'' ! (n mod 10)])"

definition show_int :: "int \<Rightarrow> string" where
  "show_int i = (if i < 0 then CHR ''-'' # show_nat (nat (- i)) else show_nat (nat i))"

definition grci_err_prefix :: "grci_err_type \<Rightarrow> int \<Rightarrow> string" where
  "grci_err_prefix type line =
     (case type of
        GRCI_ERR_COMP \<Rightarrow> ''GRCI compilation error [near line '' @ show_int line @ '']: ''
      | GRCI_ERR_SIM \<Rightarrow> ''GRCI simulation error: ''
      | GRCI_ERR_MEM \<Rightarrow> ''GRCI memory allocation error: ''
      | GRCI_ERR_INTERN \<Rightarrow> ''GRCI internal error: '')"

text \<open>
  The two reporting macros. Both return a pair: whether control continues after the
  macro (\<open>True\<close>) or the enclosing function returns at once (\<open>False\<close>), and the buffer.
  \<open>detail\<close> is the text that \<open>sprintf(grci_err_buf + off, fmt, ...)\<close> appends.
  In \<open>grci_ensure\<close> the \<open>return GRCI_ERR\<close> follows the guarded write; in
  \<open>grci_ensure_retnull\<close> the \<open>return NULL\<close> sits inside the guarded block, so with a
  non-empty buffer control falls through.
\<close>

definition grci_ensure ::
  "bool \<Rightarrow> grci_err_type \<Rightarrow> int \<Rightarrow> string \<Rightarrow> string \<Rightarrow> bool \<times> string" where
  "grci_ensure cond type line detail buf =
     (if cond then (True, buf)
      else (False, if length buf = 0 then grci_err_prefix type line @ detail else buf))"

definition grci_ensure_retnull ::
  "bool \<Rightarrow> grci_err_type \<Rightarrow> int \<Rightarrow> string \<Rightarrow> string \<Rightarrow> bool \<times> string" where
  "grci_ensure_retnull cond type line detail buf =
     (if cond then (True, buf)
      else if length buf = 0 then (False, grci_err_prefix type line @ detail)
      else (True, buf))"

text \<open>
  Everything that writes the buffer: an expansion of one of the two macros, or the
  \<open>grci_err_buf[0] = '\0'\<close> at the end of a successful \<open>grci_init\<close>.
\<close>

datatype grci_buf_event =
    Ensure bool grci_err_type int string
  | Ensure_retnull bool grci_err_type int string
  | Init_reset

fun buf_step :: "string \<Rightarrow> grci_buf_event \<Rightarrow> string" where
  "buf_step buf (Ensure cond type line detail) = snd (grci_ensure cond type line detail buf)"
| "buf_step buf (Ensure_retnull cond type line detail) =
     snd (grci_ensure_retnull cond type line detail buf)"
| "buf_step buf Init_reset = []"

fun is_failure :: "grci_buf_event \<Rightarrow> bool" where
  "is_failure (Ensure cond type line detail) = (\<not> cond)"
| "is_failure (Ensure_retnull cond type line detail) = (\<not> cond)"
| "is_failure Init_reset = False"

fun failure_message :: "grci_buf_event \<Rightarrow> string" where
  "failure_message (Ensure cond type line detail) = grci_err_prefix type line @ detail"
| "failure_message (Ensure_retnull cond type line detail) = grci_err_prefix type line @ detail"
| "failure_message Init_reset = []"

definition grci_err :: "string \<Rightarrow> string" where
  "grci_err buf = buf"

section \<open>Module descriptions\<close>

datatype grci_connection =
    Extern_conn nat
  | Intern_conn nat nat
  | Const_conn bool
  | Clock_conn

text \<open>
  \<open>struct grci_module_desc\<close>. The fixed-capacity arrays are lists; \<open>parts\<close> holds the
  descriptions that the C pointers refer to (descriptions are never changed once stored).
  An output element is the pair \<open>(idx, output_idx)\<close>; a part name with a \<open>NULL\<close> pointer
  is \<open>None\<close>.
\<close>

datatype grci_module_desc = Module_desc
  (name: string)
  (parts: "grci_module_desc list")
  (part_names: "string option list")
  (part_connections: "grci_connection list list")
  (part_count: nat)
  (input_count: nat)
  (input_param_count: nat)
  (desc_outputs: "(int \<times> int) list")
  (output_count: nat)
  (output_param_count: nat)
  (input_widths: "nat list")
  (output_widths: "nat list")
  (is_nand: bool)
  (is_dff: bool)
  (is_ram64K: bool)
  (sink_counts: "nat list")
  (node_count: nat)
  (dff_count: nat)

definition GRCI_MAX_MODULES :: nat where
  "GRCI_MAX_MODULES = 64"

definition GRCI_OUTPUT_NONE :: int where
  "GRCI_OUTPUT_NONE = - 1"

definition nand_decl :: grci_module_desc where
  "nand_decl = Module_desc ''Nand'' [] [] [] 0 2 2 [(GRCI_OUTPUT_NONE, GRCI_OUTPUT_NONE)] 1 1
     [1, 1] [1] True False False [1, 1] 1 0"

definition dff_decl :: grci_module_desc where
  "dff_decl = Module_desc ''Dff'' [] [] [] 0 1 1 [(GRCI_OUTPUT_NONE, GRCI_OUTPUT_NONE)] 1 1
     [1] [1] False True False [1] 1 1"

definition ram64K_decl :: grci_module_desc where
  "ram64K_decl = Module_desc ''Ram64K'' [] [] [] 0 33 3
     (replicate 16 (GRCI_OUTPUT_NONE, GRCI_OUTPUT_NONE)) 16 1
     [16, 1, 16] [16] False False True (replicate 33 1) 16 16"

text \<open>
  \<open>grci_strings_equal\<close> and \<open>grci_string_matches\<close> compare length and bytes: equality
  of the two strings.
\<close>

definition grci_strings_equal :: "string \<Rightarrow> string \<Rightarrow> bool" where
  "grci_strings_equal s1 s2 = (length s1 = length s2 \<and> s1 = s2)"

definition grci_string_matches :: "string \<Rightarrow> string \<Rightarrow> bool" where
  "grci_string_matches s c = (length s = length c \<and> s = c)"

text \<open>
  The description list of the compiler, \<open>entries[GRCI_MAX_MODULES]\<close> with \<open>count\<close>:
  the list of the \<open>count\<close> entries stored so far. Appending to a full list fails the
  \<open>assert\<close> of the source, which aborts the program.

  The ways in which the C program stops without a result are values of \<open>grci_abort\<close>:
  a failed \<open>assert\<close>; an access outside an array or through a dangling index, and a
  union member read or written on a node of another type, both undefined behaviour in C
  and excluded by the way the graph is built; and \<open>Out_of_fuel\<close>, which belongs to the
  model alone (the recursive evaluators carry a recursion bound).
\<close>

datatype grci_abort = Assertion_failed | Out_of_bounds | Wrong_union_member | Out_of_fuel

definition grci_module_desc_list_init :: "grci_module_desc list" where
  "grci_module_desc_list_init = []"

definition grci_module_desc_list_append ::
  "grci_module_desc list \<Rightarrow> grci_module_desc \<Rightarrow> grci_abort + grci_module_desc list" where
  "grci_module_desc_list_append list module_def =
     (if length list < GRCI_MAX_MODULES then Inr (list @ [module_def])
      else Inl Assertion_failed)"

fun grci_module_desc_list_get ::
  "grci_module_desc list \<Rightarrow> string \<Rightarrow> grci_module_desc option" where
  "grci_module_desc_list_get [] s = None"
| "grci_module_desc_list_get (cur # rest) s =
     (if grci_strings_equal (name cur) s then Some cur
      else grci_module_desc_list_get rest s)"

text \<open>
  The part of \<open>grci_compiler_init\<close> that fills the description list: the three
  built-ins, in this order.
\<close>

definition grci_compiler_init :: "grci_module_desc list" where
  "grci_compiler_init =
     (case grci_module_desc_list_append grci_module_desc_list_init nand_decl of
        Inl e \<Rightarrow> []
      | Inr l1 \<Rightarrow>
          (case grci_module_desc_list_append l1 dff_decl of
             Inl e \<Rightarrow> []
           | Inr l2 \<Rightarrow>
               (case grci_module_desc_list_append l2 ram64K_decl of
                  Inl e \<Rightarrow> []
                | Inr l3 \<Rightarrow> l3)))"

text \<open>
  The description list is changed in one place only, the append that ends
  \<open>grci_compiler_compile_module\<close>. Whatever the sources passed to \<open>grci_compile_src\<close>
  are, their effect on the list is a sequence of appends, which stops at the first
  failed assertion.
\<close>

fun append_modules ::
  "grci_module_desc list \<Rightarrow> grci_module_desc list \<Rightarrow> grci_abort + grci_module_desc list" where
  "append_modules list [] = Inr list"
| "append_modules list (d # ds) =
     (case grci_module_desc_list_append list d of
        Inl e \<Rightarrow> Inl e
      | Inr list' \<Rightarrow> append_modules list' ds)"

section \<open>Looking a submodule up by name\<close>

text \<open>
  The loop of \<open>grci_submodule\<close> over the first \<open>part_count\<close> part names, from index
  \<open>i\<close> on; the result is the index of the submodule whose address the C function
  returns.
\<close>

fun submodule_loop :: "string option list \<Rightarrow> nat \<Rightarrow> string \<Rightarrow> nat option" where
  "submodule_loop [] i submodule_name = None"
| "submodule_loop (None # rest) i submodule_name = submodule_loop rest (Suc i) submodule_name"
| "submodule_loop (Some pn # rest) i submodule_name =
     (if grci_string_matches pn submodule_name then Some i
      else submodule_loop rest (Suc i) submodule_name)"

text \<open>
  The conversion \<open>%.*s\<close> of \<open>sprintf\<close> with the precision \<open>len\<close> and the argument
  \<open>submodule_name\<close>: the bytes of the name are written up to \<open>len\<close> of them or up to the
  first NUL byte, whichever comes first. The string of the model is the \<open>len\<close> bytes
  the caller passed.
\<close>

definition format_precision_s :: "string \<Rightarrow> string" where
  "format_precision_s s = takeWhile (\<lambda>c. c \<noteq> CHR 0x00) s"

text \<open>
  \<open>grci_submodule\<close> on the description of the instantiated module and the error
  buffer. \<open>None\<close> is the \<open>NULL\<close> result. After the loop the macro either returns
  \<open>NULL\<close> itself or falls through to the final \<open>return NULL\<close>.
\<close>

definition grci_submodule ::
  "grci_module_desc \<Rightarrow> string \<Rightarrow> string \<Rightarrow> nat option \<times> string" where
  "grci_submodule d submodule_name buf =
     (case submodule_loop (take (part_count d) (part_names d)) 0 submodule_name of
        Some i \<Rightarrow> (Some i, buf)
      | None \<Rightarrow>
          (case grci_ensure_retnull False GRCI_ERR_SIM 0
                  (''submodule '' @ format_precision_s submodule_name @ '' does not exist'') buf of
             (False, buf') \<Rightarrow> (None, buf')
           | (True, buf') \<Rightarrow> (None, buf')))"

section \<open>The node graph of the simulator\<close>

text \<open>
  \<open>struct grci_node\<close>: the union \<open>as\<close> together with the tag \<open>type\<close> is the datatype
  \<open>grci_node_as\<close>. A pointer to a node is its index in the node array, \<open>NULL\<close> (or a
  slot that was never connected) is \<open>None\<close>; a pointer to a RAM block is its index in
  the list of RAM blocks.
\<close>

datatype grci_node_as =
    Constant bool
  | Nand "nat option" "nat option"
  | Dff "nat option" bool
  | Ram64kOut nat bool

datatype grci_node_type = GRCI_NT_CONSTANT | GRCI_NT_NAND | GRCI_NT_DFF | GRCI_NT_RAM64KOUT

record grci_node =
  node_as :: grci_node_as
  visited :: bool
  cached_state :: bool

definition node_type :: "grci_node \<Rightarrow> grci_node_type" where
  "node_type node =
     (case node_as node of
        Constant c \<Rightarrow> GRCI_NT_CONSTANT
      | Nand a b \<Rightarrow> GRCI_NT_NAND
      | Dff input ls \<Rightarrow> GRCI_NT_DFF
      | Ram64kOut r ls \<Rightarrow> GRCI_NT_RAM64KOUT)"

record grci_ram64k =
  ram_inputs :: "nat option list"
  ram_load :: "nat option"
  ram_addrs :: "nat option list"
  ram_data :: "8 word list"
  ram_outputs :: "nat list"

record grci_simulator =
  nodes :: "grci_node list"
  rams :: "grci_ram64k list"
  dff_nodes :: "nat list"
  const0 :: nat
  const1 :: nat
  clock :: nat

definition set_visited :: "grci_simulator \<Rightarrow> nat \<Rightarrow> bool \<Rightarrow> grci_simulator" where
  "set_visited s n v = s\<lparr>nodes := (nodes s)[n := (nodes s ! n)\<lparr>visited := v\<rparr>]\<rparr>"

definition set_cached :: "grci_simulator \<Rightarrow> nat \<Rightarrow> bool \<Rightarrow> grci_simulator" where
  "set_cached s n v = s\<lparr>nodes := (nodes s)[n := (nodes s ! n)\<lparr>cached_state := v\<rparr>]\<rparr>"

text \<open>
  \<open>as.dff.last_state\<close>. \<open>struct grci_dff\<close> and \<open>struct grci_ram64kOut\<close> are both a pointer
  followed by a \<open>bool\<close>, and the simulator reads and writes the \<open>last_state\<close> of the
  RAM output nodes of its DFF list through \<open>as.dff\<close>; on the two other node types the
  member does not exist.
\<close>

definition get_last_state :: "grci_node \<Rightarrow> grci_abort + bool" where
  "get_last_state node =
     (case node_as node of
        Dff input ls \<Rightarrow> Inr ls
      | Ram64kOut r ls \<Rightarrow> Inr ls
      | _ \<Rightarrow> Inl Wrong_union_member)"

definition set_last_state :: "grci_node \<Rightarrow> bool \<Rightarrow> grci_abort + grci_node" where
  "set_last_state node v =
     (case node_as node of
        Dff input ls \<Rightarrow> Inr (node\<lparr>node_as := Dff input v\<rparr>)
      | Ram64kOut r ls \<Rightarrow> Inr (node\<lparr>node_as := Ram64kOut r v\<rparr>)
      | _ \<Rightarrow> Inl Wrong_union_member)"

definition get_constant :: "grci_node \<Rightarrow> grci_abort + bool" where
  "get_constant node =
     (case node_as node of Constant c \<Rightarrow> Inr c | _ \<Rightarrow> Inl Wrong_union_member)"

definition set_constant :: "grci_node \<Rightarrow> bool \<Rightarrow> grci_abort + grci_node" where
  "set_constant node v =
     (case node_as node of
        Constant c \<Rightarrow> Inr (node\<lparr>node_as := Constant v\<rparr>)
      | _ \<Rightarrow> Inl Wrong_union_member)"

text \<open>The node constructors of the simulator; each takes the next free array element.\<close>

definition grci_constant_new :: "grci_simulator \<Rightarrow> bool \<Rightarrow> grci_simulator \<times> nat" where
  "grci_constant_new s c =
     (s\<lparr>nodes := nodes s @ [\<lparr>node_as = Constant c, visited = False, cached_state = c\<rparr>]\<rparr>,
      length (nodes s))"

definition grci_nand_new ::
  "grci_simulator \<Rightarrow> nat option \<Rightarrow> nat option \<Rightarrow> grci_simulator \<times> nat" where
  "grci_nand_new s a b =
     (s\<lparr>nodes := nodes s @ [\<lparr>node_as = Nand a b, visited = False, cached_state = False\<rparr>]\<rparr>,
      length (nodes s))"

definition grci_dff_new :: "grci_simulator \<Rightarrow> grci_simulator \<times> nat" where
  "grci_dff_new s =
     (s\<lparr>nodes := nodes s @ [\<lparr>node_as = Dff None False, visited = False, cached_state = False\<rparr>],
        dff_nodes := dff_nodes s @ [length (nodes s)]\<rparr>,
      length (nodes s))"

definition grci_ram64kout_new :: "grci_simulator \<Rightarrow> nat \<Rightarrow> grci_simulator \<times> nat" where
  "grci_ram64kout_new s ram =
     (s\<lparr>nodes := nodes s @
          [\<lparr>node_as = Ram64kOut ram False, visited = False, cached_state = False\<rparr>],
        dff_nodes := dff_nodes s @ [length (nodes s)]\<rparr>,
      length (nodes s))"

text \<open>
  \<open>grci_simulator_init\<close>: empty arrays, then the two constants and the clock node, whose
  constant starts at 1.
\<close>

definition grci_simulator_init :: grci_simulator where
  "grci_simulator_init =
     (let s0 = \<lparr>nodes = [], rams = [], dff_nodes = [], const0 = 0, const1 = 0, clock = 0\<rparr>;
          (s1, c0) = grci_constant_new s0 False;
          (s2, c1) = grci_constant_new s1 True;
          (s3, ck) = grci_constant_new s2 True
      in s3\<lparr>const0 := c0, const1 := c1, clock := ck\<rparr>)"

section \<open>The two evaluators\<close>

text \<open>
  A run of evaluator calls, one after the other on the same graph: the state is
  threaded through, the results are collected, the first abort ends the run.
\<close>

fun eval_seq ::
  "(grci_simulator \<Rightarrow> nat option \<Rightarrow> grci_abort + grci_simulator \<times> bool) \<Rightarrow>
   grci_simulator \<Rightarrow> nat option list \<Rightarrow> grci_abort + grci_simulator \<times> bool list" where
  "eval_seq ev s [] = Inr (s, [])"
| "eval_seq ev s (p # ps) =
     (case ev s p of
        Inl e \<Rightarrow> Inl e
      | Inr (s1, v) \<Rightarrow>
          (case eval_seq ev s1 ps of
             Inl e \<Rightarrow> Inl e
           | Inr (s2, vs) \<Rightarrow> Inr (s2, v # vs)))"

text \<open>\<open>x |= b << i\<close> for \<open>i = 0, 1, ...\<close> over the bits \<open>bs\<close>, starting from 0.\<close>

definition or_bits :: "bool list \<Rightarrow> 'a::semiring_bit_operations" where
  "or_bits bs = foldl (\<lambda>x (i, b). x OR push_bit i (of_bool b)) 0 (zip [0..<length bs] bs)"

fun interleave :: "'a list \<Rightarrow> 'a list \<Rightarrow> 'a list" where
  "interleave (x # xs) (y # ys) = x # y # interleave xs ys"
| "interleave xs ys = []"

fun evens :: "'a list \<Rightarrow> 'a list" where
  "evens (x # y # zs) = x # evens zs"
| "evens zs = []"

fun odds :: "'a list \<Rightarrow> 'a list" where
  "odds (x # y # zs) = y # odds zs"
| "odds zs = []"

text \<open>
  The order in which the RAM case of \<open>grci_eval_dff\<close> evaluates the slots of the block:
  \<open>load\<close>, then \<open>inputs[i]\<close> and \<open>addrs[i]\<close> for \<open>i = 0..15\<close>.
\<close>

definition ram_eval_order :: "grci_ram64k \<Rightarrow> nat option list" where
  "ram_eval_order ram =
     ram_load ram # interleave (take 16 (ram_inputs ram)) (take 16 (ram_addrs ram))"

text \<open>
  Bit \<open>i < 16\<close> of \<open>*((int*) &ram->data[addr])\<close>: the \<open>int\<close> is read as four bytes, least
  significant byte first (a little-endian machine with a 32-bit \<open>int\<close>), and only its
  low 16 bits are used.
\<close>

definition ram_output_bit :: "8 word list \<Rightarrow> nat \<Rightarrow> nat \<Rightarrow> bool" where
  "ram_output_bit data addr i =
     (if i < 8 then bit (data ! addr) i else bit (data ! Suc addr) (i - 8))"

definition set_ram_outputs :: "grci_node list \<Rightarrow> nat list \<Rightarrow> (nat \<Rightarrow> bool) \<Rightarrow> grci_node list" where
  "set_ram_outputs ns outs output =
     foldl (\<lambda>ns' (i, out). ns'[out := (ns' ! out)\<lparr>visited := True, cached_state := output i\<rparr>])
       ns (zip [0..<16] outs)"

text \<open>
  The end of the RAM case, after the slots have been evaluated: the store of the two
  bytes when \<open>load\<close> is high, the 16-bit read, and its distribution to the 16 output
  nodes of the block. \<open>grci_eval_node\<close> has the same code without the store.
\<close>

definition ram_store_and_read ::
  "grci_simulator \<Rightarrow> nat \<Rightarrow> bool \<Rightarrow> bool list \<Rightarrow> bool list \<Rightarrow> grci_abort + grci_simulator" where
  "ram_store_and_read s r load ins ads =
     (if length (rams s) \<le> r then Inl Out_of_bounds
      else
        let ram = rams s ! r;
            input1 = (or_bits (take 8 ins) :: 8 word);
            input2 = (or_bits (take 8 (drop 8 ins)) :: 8 word);
            addr = (or_bits ads :: nat)
        in
          if load \<and> length (ram_data ram) \<le> Suc addr then Inl Out_of_bounds
          else
            let data = (if load then (ram_data ram)[addr := input1, Suc addr := input2]
                        else ram_data ram)
            in
              if length data < addr + 4 then Inl Out_of_bounds
              else if \<exists>out \<in> set (ram_outputs ram). length (nodes s) \<le> out
              then Inl Out_of_bounds
              else Inr (s\<lparr>rams := (rams s)[r := ram\<lparr>ram_data := data\<rparr>],
                          nodes := set_ram_outputs (nodes s) (ram_outputs ram)
                                     (ram_output_bit data addr)\<rparr>))"

text \<open>
  \<open>grci_eval_dff(node, root)\<close>. The first argument bounds the depth of the recursion;
  the C function has no such bound, and \<open>grci_step_module\<close> below passes one more than
  the number of nodes, which is never used up (lemma \<open>grci_eval_dff_fuel\<close>).
\<close>

fun grci_eval_dff ::
  "nat \<Rightarrow> grci_simulator \<Rightarrow> nat option \<Rightarrow> bool \<Rightarrow> grci_abort + grci_simulator \<times> bool" where
  "grci_eval_dff fuel s None root = Inl Assertion_failed"
| "grci_eval_dff 0 s (Some n) root = Inl Out_of_fuel"
| "grci_eval_dff (Suc fuel) s (Some n) root =
     (if length (nodes s) \<le> n then Inl Out_of_bounds
      else if visited (nodes s ! n) then
        (case node_as (nodes s ! n) of
           Dff input ls \<Rightarrow> Inr (s, ls)
         | _ \<Rightarrow> Inr (s, cached_state (nodes s ! n)))
      else
        (case node_as (nodes s ! n) of
           Constant c \<Rightarrow> Inr (set_cached (set_visited s n True) n c, c)
         | Nand a b \<Rightarrow>
             (if a = None \<or> b = None then Inl Assertion_failed
              else
                case grci_eval_dff fuel (set_visited s n True) a False of
                  Inl e \<Rightarrow> Inl e
                | Inr (s2, left) \<Rightarrow>
                    (case grci_eval_dff fuel s2 b False of
                       Inl e \<Rightarrow> Inl e
                     | Inr (s3, right) \<Rightarrow>
                         Inr (set_cached s3 n (\<not> (left \<and> right)), \<not> (left \<and> right))))
         | Dff input ls \<Rightarrow>
             (if \<not> root then Inr (set_visited s n True, cached_state (nodes s ! n))
              else if input = None then Inl Assertion_failed
              else
                case grci_eval_dff fuel (set_visited s n True) input False of
                  Inl e \<Rightarrow> Inl e
                | Inr (s2, v) \<Rightarrow> Inr (set_cached s2 n v, v))
         | Ram64kOut r ls \<Rightarrow>
             (if length (rams s) \<le> r then Inl Out_of_bounds
              else
                case eval_seq (\<lambda>s' p. grci_eval_dff fuel s' p False) (set_visited s n True)
                       (ram_eval_order (rams s ! r)) of
                  Inl e \<Rightarrow> Inl e
                | Inr (s2, vs) \<Rightarrow>
                    (case ram_store_and_read s2 r (hd vs) (evens (tl vs)) (odds (tl vs)) of
                       Inl e \<Rightarrow> Inl e
                     | Inr s3 \<Rightarrow> Inr (s3, cached_state (nodes s3 ! n))))))"

text \<open>
  \<open>grci_eval_node(node)\<close>, the evaluator of the output pass. Its RAM case evaluates the
  address slots with \<open>grci_eval_dff(..., false)\<close>, as the source does.
\<close>

fun grci_eval_node ::
  "nat \<Rightarrow> grci_simulator \<Rightarrow> nat option \<Rightarrow> grci_abort + grci_simulator \<times> bool" where
  "grci_eval_node fuel s None = Inl Assertion_failed"
| "grci_eval_node 0 s (Some n) = Inl Out_of_fuel"
| "grci_eval_node (Suc fuel) s (Some n) =
     (if length (nodes s) \<le> n then Inl Out_of_bounds
      else if visited (nodes s ! n) then
        (case node_as (nodes s ! n) of
           Dff input ls \<Rightarrow> Inr (s, ls)
         | _ \<Rightarrow> Inr (s, cached_state (nodes s ! n)))
      else
        (case node_as (nodes s ! n) of
           Constant c \<Rightarrow> Inr (set_cached (set_visited s n True) n c, c)
         | Nand a b \<Rightarrow>
             (if a = None \<or> b = None then Inl Assertion_failed
              else
                case grci_eval_node fuel (set_visited s n True) a of
                  Inl e \<Rightarrow> Inl e
                | Inr (s2, left) \<Rightarrow>
                    (case grci_eval_node fuel s2 b of
                       Inl e \<Rightarrow> Inl e
                     | Inr (s3, right) \<Rightarrow>
                         Inr (set_cached s3 n (\<not> (left \<and> right)), \<not> (left \<and> right))))
         | Dff input ls \<Rightarrow>
             (if input = None then Inl Assertion_failed
              else Inr (set_visited s n True, cached_state (nodes s ! n)))
         | Ram64kOut r ls \<Rightarrow>
             (if length (rams s) \<le> r then Inl Out_of_bounds
              else
                case eval_seq (\<lambda>s' p. grci_eval_dff fuel s' p False) (set_visited s n True)
                       (take 16 (ram_addrs (rams s ! r))) of
                  Inl e \<Rightarrow> Inl e
                | Inr (s2, ads) \<Rightarrow>
                    (case ram_store_and_read s2 r False [] ads of
                       Inl e \<Rightarrow> Inl e
                     | Inr s3 \<Rightarrow> Inr (s3, cached_state (nodes s3 ! n))))))"

section \<open>One step of the simulation\<close>

definition GRCI_RAM64K_STATE_COUNT :: nat where
  "GRCI_RAM64K_STATE_COUNT = 65536 * 8"

record grci_submodule =
  state_count :: nat
  states :: "bool list"

text \<open>
  The instantiated module: \<open>struct grci_module\<close> with the \<open>struct grci_sim\<close> it points
  to. \<open>inputs\<close> and \<open>outputs\<close> are the two \<open>bool\<close> arrays of the public interface;
  \<open>inst_inputs\<close> and \<open>inst_outputs\<close> are the node pointers \<open>module.inputs\<close> and
  \<open>module.outputs\<close> of the instance.
\<close>

record grci_module =
  inputs :: "bool list"
  outputs :: "bool list"
  sim :: grci_simulator
  desc :: grci_module_desc
  inst_inputs :: "nat list"
  inst_outputs :: "nat option list"
  submodules :: "grci_submodule list"
  dff_off_len :: "(nat \<times> nat) list"

definition and_then :: "grci_abort + 'a \<Rightarrow> ('a \<Rightarrow> grci_abort + 'b) \<Rightarrow> grci_abort + 'b" where
  "and_then x f = (case x of Inl e \<Rightarrow> Inl e | Inr v \<Rightarrow> f v)"

definition nth_checked :: "'a list \<Rightarrow> nat \<Rightarrow> grci_abort + 'a" where
  "nth_checked xs i = (if i < length xs then Inr (xs ! i) else Inl Out_of_bounds)"

text \<open>A \<open>for\<close> loop whose body may abort: the body runs on each element in turn.\<close>

fun for_each :: "('s \<Rightarrow> 'a \<Rightarrow> grci_abort + 's) \<Rightarrow> 's \<Rightarrow> 'a list \<Rightarrow> grci_abort + 's" where
  "for_each body s [] = Inr s"
| "for_each body s (x # xs) =
     (case body s x of Inl e \<Rightarrow> Inl e | Inr s' \<Rightarrow> for_each body s' xs)"

text \<open>\<open>module.inputs[i]->as.constant = m->inputs[i]\<close>\<close>

definition publish_input :: "grci_module \<Rightarrow> nat \<Rightarrow> grci_abort + grci_module" where
  "publish_input m i =
     and_then (nth_checked (inst_inputs m) i) (\<lambda>n.
     and_then (nth_checked (inputs m) i) (\<lambda>v.
     and_then (nth_checked (nodes (sim m)) n) (\<lambda>node.
     and_then (set_constant node v) (\<lambda>node'.
       Inr (m\<lparr>sim := (sim m)\<lparr>nodes := (nodes (sim m))[n := node']\<rparr>\<rparr>)))))"

text \<open>
  The loop that packs the state buffer of a named \<open>Ram64K\<close> part into the bytes of the
  block. \<open>c\<close> is a \<open>char\<close>; of \<open>c | (states[i] << (i % 8))\<close> the low eight bits are kept.
\<close>

function ram64k_load_loop ::
  "bool list \<Rightarrow> nat \<Rightarrow> nat \<Rightarrow> 8 word \<Rightarrow> 8 word list \<Rightarrow> 8 word list" where
  "ram64k_load_loop sts count i c data =
     (if i < count then
        (if i mod 8 = 7
         then ram64k_load_loop sts count (Suc i) 0
                (data[i div 8 := c OR push_bit (i mod 8) (of_bool (sts ! i))])
         else ram64k_load_loop sts count (Suc i)
                (c OR push_bit (i mod 8) (of_bool (sts ! i))) data)
      else data)"
  by pat_completeness auto
termination
  by (relation "measure (\<lambda>(sts, count, i, c, data). count - i)") auto

declare ram64k_load_loop.simps [simp del]

text \<open>
  The loop that unpacks the bytes of the block into the state buffer:
  \<open>states[i] = (c >> (i % 8)) & 1\<close> with \<open>c = data[i / 8]\<close>. The promotion of the \<open>char\<close>
  to \<open>int\<close> does not change its bits 0 to 7.
\<close>

function ram64k_snapshot_loop ::
  "8 word list \<Rightarrow> nat \<Rightarrow> nat \<Rightarrow> bool list \<Rightarrow> bool list" where
  "ram64k_snapshot_loop data count i sts =
     (if i < count then
        ram64k_snapshot_loop data count (Suc i)
          (sts[i := (drop_bit (i mod 8) (data ! (i div 8)) AND 1 \<noteq> 0)])
      else sts)"
  by pat_completeness auto
termination
  by (relation "measure (\<lambda>(data, count, i, sts). count - i)") auto

declare ram64k_snapshot_loop.simps [simp del]

text \<open>The RAM block of a named \<open>Ram64K\<close> part, found through the first node of its DFF range.\<close>

definition ram_of_part :: "grci_module \<Rightarrow> nat \<Rightarrow> grci_abort + nat" where
  "ram_of_part m dff_off =
     and_then (nth_checked (dff_nodes (sim m)) dff_off) (\<lambda>n.
     and_then (nth_checked (nodes (sim m)) n) (\<lambda>node.
       case node_as node of
         Ram64kOut r ls \<Rightarrow> Inr r
       | _ \<Rightarrow> Inl Assertion_failed))"

text \<open>
  \<open>dff_nodes[j + dff_off]->as.dff.last_state = states[j]\<close> and the same for
  \<open>cached_state\<close>.
\<close>

definition load_dff_state ::
  "bool list \<Rightarrow> nat \<Rightarrow> grci_simulator \<Rightarrow> nat \<Rightarrow> grci_abort + grci_simulator" where
  "load_dff_state sts dff_off s j =
     and_then (nth_checked (dff_nodes s) (j + dff_off)) (\<lambda>n.
     and_then (nth_checked sts j) (\<lambda>v.
     and_then (nth_checked (nodes s) n) (\<lambda>node.
     and_then (set_last_state node v) (\<lambda>node'.
       Inr (s\<lparr>nodes := (nodes s)[n := node'\<lparr>cached_state := v\<rparr>]\<rparr>)))))"

text \<open>The body of the first loop over the parts: the state buffer is loaded into the graph.\<close>

definition load_submodule :: "grci_module \<Rightarrow> nat \<Rightarrow> grci_abort + grci_module" where
  "load_submodule m i =
     and_then (nth_checked (part_names (desc m)) i) (\<lambda>pn.
       case pn of
         None \<Rightarrow> Inr m
       | Some nm \<Rightarrow>
           and_then (nth_checked (submodules m) i) (\<lambda>sub.
           and_then (nth_checked (parts (desc m)) i) (\<lambda>part.
           and_then (nth_checked (dff_off_len m) i) (\<lambda>(dff_off, dff_len).
             if grci_string_matches (name part) ''Ram64K'' then
               and_then (ram_of_part m dff_off) (\<lambda>r.
               and_then (nth_checked (rams (sim m)) r) (\<lambda>ram.
                 if length (states sub) < GRCI_RAM64K_STATE_COUNT
                    \<or> length (ram_data ram) < GRCI_RAM64K_STATE_COUNT div 8
                 then Inl Out_of_bounds
                 else Inr (m\<lparr>sim := (sim m)\<lparr>rams := (rams (sim m))
                        [r := ram\<lparr>ram_data := ram64k_load_loop (states sub)
                                GRCI_RAM64K_STATE_COUNT 0 0 (ram_data ram)\<rparr>]\<rparr>\<rparr>)))
             else
               and_then (for_each (load_dff_state (states sub) dff_off) (sim m) [0..<dff_len])
                 (\<lambda>s'. Inr (m\<lparr>sim := s'\<rparr>))))))"

text \<open>\<open>sim->clock->as.constant = sim->clock->as.constant == 0 ? 1 : 0\<close>\<close>

definition toggle_clock :: "grci_simulator \<Rightarrow> grci_abort + grci_simulator" where
  "toggle_clock s =
     and_then (nth_checked (nodes s) (clock s)) (\<lambda>node.
     and_then (get_constant node) (\<lambda>c.
     and_then (set_constant node (c = False)) (\<lambda>node'.
       Inr (s\<lparr>nodes := (nodes s)[clock s := node']\<rparr>))))"

definition clock_level :: "grci_simulator \<Rightarrow> grci_abort + bool" where
  "clock_level s = and_then (nth_checked (nodes s) (clock s)) get_constant"

definition clear_visited :: "grci_simulator \<Rightarrow> grci_simulator" where
  "clear_visited s = s\<lparr>nodes := map (\<lambda>node. node\<lparr>visited := False\<rparr>) (nodes s)\<rparr>"

definition clear_visited_non_dff :: "grci_simulator \<Rightarrow> grci_simulator" where
  "clear_visited_non_dff s =
     s\<lparr>nodes := map (\<lambda>node. if node_type node \<noteq> GRCI_NT_DFF then node\<lparr>visited := False\<rparr>
                             else node) (nodes s)\<rparr>"

text \<open>
  The body of the loop over the DFF list on a high clock: the node is evaluated as the
  root, and afterwards the \<open>visited\<close> flags of all nodes that are not DFFs are cleared.
\<close>

definition eval_dff_root :: "grci_simulator \<Rightarrow> nat \<Rightarrow> grci_abort + grci_simulator" where
  "eval_dff_root s n =
     (if length (nodes s) \<le> n then Inl Out_of_bounds
      else
        case grci_eval_dff (Suc (length (nodes s))) (set_visited s n False) (Some n) True of
          Inl e \<Rightarrow> Inl e
        | Inr (s', v) \<Rightarrow> Inr (clear_visited_non_dff s'))"

text \<open>\<open>dff_nodes[k]->as.dff.last_state = dff_nodes[k]->cached_state\<close>\<close>

definition commit_dff :: "grci_simulator \<Rightarrow> nat \<Rightarrow> grci_abort + grci_simulator" where
  "commit_dff s n =
     and_then (nth_checked (nodes s) n) (\<lambda>node.
     and_then (set_last_state node (cached_state node)) (\<lambda>node'.
       Inr (s\<lparr>nodes := (nodes s)[n := node']\<rparr>)))"

definition dff_pass :: "grci_simulator \<Rightarrow> grci_abort + grci_simulator" where
  "dff_pass s =
     and_then (for_each eval_dff_root s (dff_nodes s)) (\<lambda>s'.
       for_each commit_dff s' (dff_nodes s'))"

text \<open>\<open>m->outputs[k] = grci_eval_node(module.outputs[k])\<close>\<close>

definition eval_output :: "grci_module \<Rightarrow> nat \<Rightarrow> grci_abort + grci_module" where
  "eval_output m k =
     and_then (nth_checked (inst_outputs m) k) (\<lambda>p.
     and_then (grci_eval_node (Suc (length (nodes (sim m)))) (sim m) p) (\<lambda>(s', v).
       if length (outputs m) \<le> k then Inl Out_of_bounds
       else Inr (m\<lparr>sim := s', outputs := (outputs m)[k := v]\<rparr>)))"

text \<open>\<open>states[j] = dff_nodes[j + dff_off]->as.dff.last_state\<close>\<close>

definition snapshot_dff_state ::
  "grci_simulator \<Rightarrow> nat \<Rightarrow> bool list \<Rightarrow> nat \<Rightarrow> grci_abort + bool list" where
  "snapshot_dff_state s dff_off sts j =
     and_then (nth_checked (dff_nodes s) (j + dff_off)) (\<lambda>n.
     and_then (nth_checked (nodes s) n) (\<lambda>node.
     and_then (get_last_state node) (\<lambda>v.
       if length sts \<le> j then Inl Out_of_bounds else Inr (sts[j := v]))))"

text \<open>The body of the last loop over the parts: the graph is copied into the state buffer.\<close>

definition snapshot_submodule :: "grci_module \<Rightarrow> nat \<Rightarrow> grci_abort + grci_module" where
  "snapshot_submodule m i =
     and_then (nth_checked (part_names (desc m)) i) (\<lambda>pn.
       case pn of
         None \<Rightarrow> Inr m
       | Some nm \<Rightarrow>
           and_then (nth_checked (submodules m) i) (\<lambda>sub.
           and_then (nth_checked (parts (desc m)) i) (\<lambda>part.
           and_then (nth_checked (dff_off_len m) i) (\<lambda>(dff_off, dff_len).
           and_then
             (if grci_string_matches (name part) ''Ram64K'' then
                and_then (ram_of_part m dff_off) (\<lambda>r.
                and_then (nth_checked (rams (sim m)) r) (\<lambda>ram.
                  if length (states sub) < GRCI_RAM64K_STATE_COUNT
                     \<or> length (ram_data ram) < GRCI_RAM64K_STATE_COUNT div 8
                  then Inl Out_of_bounds
                  else Inr (ram64k_snapshot_loop (ram_data ram) GRCI_RAM64K_STATE_COUNT 0
                              (states sub))))
              else for_each (snapshot_dff_state (sim m) dff_off) (states sub) [0..<dff_len])
             (\<lambda>sts. Inr (m\<lparr>submodules := (submodules m)[i := sub\<lparr>states := sts\<rparr>]\<rparr>))))))"

text \<open>
  \<open>grci_step_module\<close>: the inputs are published, the state buffers are loaded, the clock
  is flipped, all \<open>visited\<close> flags are cleared, on a high clock the DFFs are updated,
  the outputs are evaluated, the state buffers are written, and the clock level is
  returned.
\<close>

definition grci_step_module :: "grci_module \<Rightarrow> grci_abort + grci_module \<times> bool" where
  "grci_step_module m =
     and_then (for_each publish_input m [0..<input_count (desc m)]) (\<lambda>m1.
     and_then (for_each load_submodule m1 [0..<part_count (desc m1)]) (\<lambda>m2.
     and_then (toggle_clock (sim m2)) (\<lambda>s3.
     and_then (clock_level s3) (\<lambda>level.
     and_then (if level then dff_pass (clear_visited s3) else Inr (clear_visited s3)) (\<lambda>s5.
     and_then (for_each eval_output (m2\<lparr>sim := s5\<rparr>) [0..<output_count (desc m2)]) (\<lambda>m6.
     and_then (for_each snapshot_submodule m6 [0..<part_count (desc m6)]) (\<lambda>m7.
     and_then (clock_level (sim m7)) (\<lambda>result.
       Inr (m7, result)))))))))"

section \<open>Relations between simulator states\<close>

text \<open>
  What the evaluators leave alone: the wiring of the graph (every union, with the node
  type, the constants, the slots and the \<open>last_state\<close> fields), the DFF list, the three
  shared nodes and the slots of the RAM blocks. They only write \<open>visited\<close>,
  \<open>cached_state\<close> and the bytes of the RAM blocks, and a \<open>visited\<close> flag that is set
  stays set.
\<close>

definition ram_wiring :: "grci_ram64k \<Rightarrow> nat option list \<times> nat option \<times> nat option list \<times> nat list" where
  "ram_wiring ram = (ram_inputs ram, ram_load ram, ram_addrs ram, ram_outputs ram)"

definition same_graph :: "grci_simulator \<Rightarrow> grci_simulator \<Rightarrow> bool" where
  "same_graph s s' \<longleftrightarrow>
     map node_as (nodes s') = map node_as (nodes s)
     \<and> dff_nodes s' = dff_nodes s \<and> const0 s' = const0 s \<and> const1 s' = const1 s
     \<and> clock s' = clock s
     \<and> map ram_wiring (rams s') = map ram_wiring (rams s)
     \<and> (\<forall>n < length (nodes s). visited (nodes s ! n) \<longrightarrow> visited (nodes s' ! n))"

text \<open>
  Projections of the union of a node, and the relation "the two states agree on the
  projection \<open>g\<close> of every node, on the DFF list and on the clock node".
  \<open>load_phase\<close> is the start of \<open>grci_step_module\<close>: its first two loops.
\<close>

definition constant_of :: "grci_node_as \<Rightarrow> bool option" where
  "constant_of a = (case a of Constant c \<Rightarrow> Some c | _ \<Rightarrow> None)"

definition last_state_of :: "grci_node_as \<Rightarrow> bool option" where
  "last_state_of a = (case a of Dff input ls \<Rightarrow> Some ls | Ram64kOut r ls \<Rightarrow> Some ls | _ \<Rightarrow> None)"

definition same_by :: "(grci_node_as \<Rightarrow> 'a) \<Rightarrow> grci_simulator \<Rightarrow> grci_simulator \<Rightarrow> bool" where
  "same_by g s s' \<longleftrightarrow>
     clock s' = clock s \<and> dff_nodes s' = dff_nodes s
     \<and> map (\<lambda>node. g (node_as node)) (nodes s') = map (\<lambda>node. g (node_as node)) (nodes s)"

definition load_phase :: "grci_module \<Rightarrow> grci_abort + grci_module" where
  "load_phase m =
     and_then (for_each publish_input m [0..<input_count (desc m)]) (\<lambda>m1.
       for_each load_submodule m1 [0..<part_count (desc m1)])"

definition ignores_last_state :: "(grci_node_as \<Rightarrow> 'a) \<Rightarrow> bool" where
  "ignores_last_state g \<longleftrightarrow>
     (\<forall>input v v'. g (Dff input v) = g (Dff input v'))
     \<and> (\<forall>r v v'. g (Ram64kOut r v) = g (Ram64kOut r v'))"

definition ignores_constant :: "(grci_node_as \<Rightarrow> 'a) \<Rightarrow> bool" where
  "ignores_constant g \<longleftrightarrow> (\<forall>c c'. g (Constant c) = g (Constant c'))"

text \<open>The fields of the module that a step never changes.\<close>

definition same_instance :: "grci_module \<Rightarrow> grci_module \<Rightarrow> bool" where
  "same_instance m m' \<longleftrightarrow>
     desc m' = desc m \<and> inputs m' = inputs m \<and> inst_inputs m' = inst_inputs m
     \<and> inst_outputs m' = inst_outputs m \<and> dff_off_len m' = dff_off_len m"

section \<open>The caller's access to a state buffer\<close>

text \<open>
  \<open>grci_submodule\<close> returns the address of \<open>submodules[i]\<close>; between two steps the caller
  reads and writes \<open>states[j]\<close> through it. \<open>write_states\<close> stores the values \<open>vs\<close> at
  \<open>j, j + 1, ...\<close>.
\<close>

definition read_states :: "grci_module \<Rightarrow> nat \<Rightarrow> bool list" where
  "read_states m i = states (submodules m ! i)"

definition write_state :: "grci_module \<Rightarrow> nat \<Rightarrow> nat \<Rightarrow> bool \<Rightarrow> grci_module" where
  "write_state m i j v =
     m\<lparr>submodules := (submodules m)
          [i := (submodules m ! i)\<lparr>states := (states (submodules m ! i))[j := v]\<rparr>]\<rparr>"

fun write_states :: "grci_module \<Rightarrow> nat \<Rightarrow> nat \<Rightarrow> bool list \<Rightarrow> grci_module" where
  "write_states m i j [] = m"
| "write_states m i j (v # vs) = write_states (write_state m i j v) i (Suc j) vs"

section \<open>An example instance\<close>

text \<open>
  The instance of
  \<^verbatim>\<open>module Shift(in) -> out { a: Dff(in) -> t  b: Dff(t) -> out }\<close>:
  nodes 0, 1, 2 are the two constants and the clock, nodes 3 and 4 the flip-flops of
  the parts \<open>a\<close> and \<open>b\<close>, node 5 the constant behind the input. The parameters are the
  value of the input node, the clock level, the states of the two flip-flops, and in
  \<open>example_shift\<close> the input of the caller and the contents of the two state buffers.
\<close>

definition example_shift_desc :: grci_module_desc where
  "example_shift_desc =
     Module_desc ''Shift'' [dff_decl, dff_decl] [Some ''a'', Some ''b'']
       [[Extern_conn 0], [Intern_conn 0 0]] 2 1 1 [(1, 0)] 1 1 [1] [1]
       False False False [1] 2 2"

definition example_shift_sim :: "bool \<Rightarrow> bool \<Rightarrow> bool \<Rightarrow> bool \<Rightarrow> grci_simulator" where
  "example_shift_sim i ck a b =
     \<lparr>nodes =
        [\<lparr>node_as = Constant False, visited = False, cached_state = False\<rparr>,
         \<lparr>node_as = Constant True, visited = False, cached_state = True\<rparr>,
         \<lparr>node_as = Constant ck, visited = False, cached_state = True\<rparr>,
         \<lparr>node_as = Dff (Some 5) a, visited = False, cached_state = a\<rparr>,
         \<lparr>node_as = Dff (Some 3) b, visited = False, cached_state = b\<rparr>,
         \<lparr>node_as = Constant i, visited = False, cached_state = False\<rparr>],
      rams = [], dff_nodes = [3, 4], const0 = 0, const1 = 1, clock = 2\<rparr>"

definition example_shift :: "bool \<Rightarrow> bool \<Rightarrow> bool \<Rightarrow> bool \<Rightarrow> bool \<Rightarrow> bool \<Rightarrow> grci_module" where
  "example_shift i ck a b buf_a buf_b =
     \<lparr>inputs = [i], outputs = [False], sim = example_shift_sim False ck a b,
      desc = example_shift_desc, inst_inputs = [5], inst_outputs = [Some 4],
      submodules = [\<lparr>state_count = 1, states = [buf_a]\<rparr>, \<lparr>state_count = 1, states = [buf_b]\<rparr>],
      dff_off_len = [(0, 1), (1, 1)]\<rparr>"

section \<open>Combinational evaluation\<close>





section \<open>Invariants of the flip-flop pass\<close>

text \<open>
  No RAM block lists a flip-flop among its output nodes: \<open>grci_make_module\<close> creates the
  outputs of a block with \<open>grci_ram64kout_new\<close>.
\<close>

definition ram_outputs_ok :: "grci_simulator \<Rightarrow> bool" where
  "ram_outputs_ok t \<longleftrightarrow>
     (\<forall>ram \<in> set (rams t). \<forall>out \<in> set (ram_outputs ram).
        out < length (nodes t) \<longrightarrow> node_type (nodes t ! out) \<noteq> GRCI_NT_DFF)"




text \<open>
  Every flip-flop has \<open>cached_state\<close> equal to its \<open>last_state\<close>: so \<open>grci_dff_new\<close> creates
  it, so the load of a state buffer and the commit loop leave it.
\<close>

definition dff_cache_inv :: "grci_simulator \<Rightarrow> bool" where
  "dff_cache_inv t \<longleftrightarrow>
     (\<forall>node \<in> set (nodes t).
        case node_as node of Dff input ls \<Rightarrow> cached_state node = ls | _ \<Rightarrow> True)"

text \<open>
  The union of a node with its \<open>last_state\<close> blanked.
\<close>

definition without_last_state :: "grci_node_as \<Rightarrow> grci_node_as" where
  "without_last_state a =
     (case a of
        Dff input ls \<Rightarrow> Dff input False
      | Ram64kOut r ls \<Rightarrow> Ram64kOut r False
      | _ \<Rightarrow> a)"

text \<open>
  The nodes that are not marked; their number bounds the depth of the recursion of the
  two evaluators.
\<close>

definition unvisited :: "grci_simulator \<Rightarrow> nat set" where
  "unvisited t = {k. k < length (nodes t) \<and> \<not> visited (nodes t ! k)}"

section \<open>State buffers in step with the graph\<close>

text \<open>
  The state buffer of part \<open>i\<close>, if the part is named and is not a \<open>Ram64K\<close>, holds the
  \<open>last_state\<close> of the nodes of its DFF range, as the last loop of \<open>grci_step_module\<close>
  leaves it; \<open>buffers_in_sync\<close> says so of every part.
\<close>

definition part_in_sync :: "grci_module \<Rightarrow> nat \<Rightarrow> bool" where
  "part_in_sync m i \<longleftrightarrow>
     (part_names (desc m) ! i \<noteq> None
      \<and> \<not> grci_string_matches (name (parts (desc m) ! i)) ''Ram64K'' \<longrightarrow>
      (\<forall>j \<in> set [0..<snd (dff_off_len m ! i)].
         get_last_state (nodes (sim m) ! (dff_nodes (sim m) ! (j + fst (dff_off_len m ! i))))
           = Inr (states (submodules m ! i) ! j)))"

definition buffers_in_sync :: "grci_module \<Rightarrow> bool" where
  "buffers_in_sync m \<longleftrightarrow> (\<forall>i \<in> set [0..<part_count (desc m)]. part_in_sync m i)"

section \<open>Restoring a state buffer\<close>

text \<open>
  The nodes of the DFF range of part \<open>i\<close>, those that the first loop of
  \<open>grci_step_module\<close> writes from the state buffer of the part.
\<close>

definition part_nodes :: "grci_module \<Rightarrow> nat \<Rightarrow> nat list" where
  "part_nodes m i =
     map (\<lambda>j. dff_nodes (sim m) ! (j + fst (dff_off_len m ! i))) [0..<snd (dff_off_len m ! i)]"

text \<open>
  Two nodes that differ at most in \<open>last_state\<close> and \<open>cached_state\<close>, and two node
  arrays that differ in this way at the indices of \<open>D\<close> and nowhere else.
\<close>

definition same_but_state :: "grci_node \<Rightarrow> grci_node \<Rightarrow> bool" where
  "same_but_state a b \<longleftrightarrow>
     visited b = visited a \<and> without_last_state (node_as b) = without_last_state (node_as a)"

definition differs_in_states :: "nat set \<Rightarrow> grci_node list \<Rightarrow> grci_node list \<Rightarrow> bool" where
  "differs_in_states D ns ns' \<longleftrightarrow>
     length ns' = length ns
     \<and> (\<forall>k \<in> set [0..<length ns].
           if k \<in> D then same_but_state (ns ! k) (ns' ! k) else ns' ! k = ns ! k)"

definition sims_differ :: "nat set \<Rightarrow> grci_simulator \<Rightarrow> grci_simulator \<Rightarrow> bool" where
  "sims_differ D s t \<longleftrightarrow> t = s\<lparr>nodes := nodes t\<rparr> \<and> differs_in_states D (nodes s) (nodes t)"

definition modules_differ :: "nat set \<Rightarrow> grci_module \<Rightarrow> grci_module \<Rightarrow> bool" where
  "modules_differ D a b \<longleftrightarrow> b = a\<lparr>sim := sim b\<rparr> \<and> sims_differ D (sim a) (sim b)"

section \<open>Properties of the error buffer\<close>

lemma grci_err_prefix_nonempty: "grci_err_prefix type line \<noteq> []"
  by (cases type) (simp_all add: grci_err_prefix_def)

lemma buf_step_nonempty: "buf \<noteq> [] \<Longrightarrow> e \<noteq> Init_reset \<Longrightarrow> buf_step buf e = buf"
  by (cases e) (simp_all add: grci_ensure_def grci_ensure_retnull_def)

lemma buf_step_passing: "\<not> is_failure e \<Longrightarrow> e \<noteq> Init_reset \<Longrightarrow> buf_step buf e = buf"
  by (cases e) (simp_all add: grci_ensure_def grci_ensure_retnull_def)

lemma buf_step_first_failure:
  "is_failure e \<Longrightarrow> buf_step [] e = failure_message e"
  by (cases e) (simp_all add: grci_ensure_def grci_ensure_retnull_def)

lemma failure_message_nonempty: "is_failure e \<Longrightarrow> failure_message e \<noteq> []"
  by (cases e) (simp_all add: grci_err_prefix_nonempty)

lemma foldl_buf_step_nonempty:
  "buf \<noteq> [] \<Longrightarrow> Init_reset \<notin> set es \<Longrightarrow> foldl buf_step buf es = buf"
  by (induction es arbitrary: buf) (auto simp: buf_step_nonempty)

lemma foldl_buf_step_passing:
  "\<forall>e \<in> set es. \<not> is_failure e \<and> e \<noteq> Init_reset \<Longrightarrow> foldl buf_step buf es = buf"
  by (induction es arbitrary: buf) (auto simp: buf_step_passing)

text \<open>
  C10. The buffer keeps the first failure since the reset of \<open>grci_init\<close>: after the
  reset, a run of passing checks \<open>pre\<close>, a failing check \<open>e\<close> and any later checks
  \<open>post\<close> (passing or failing, through either macro), \<open>grci_err\<close> returns the message of
  \<open>e\<close>, which is not empty; no check changes a non-empty buffer; and the reset empties it.
\<close>

theorem err_buf_keeps_first_failure:
  assumes "\<forall>p \<in> set pre. \<not> is_failure p \<and> p \<noteq> Init_reset"
    and "is_failure e"
    and "Init_reset \<notin> set post"
  shows "grci_err (foldl buf_step (buf_step buf0 Init_reset) (pre @ e # post)) = failure_message e
    \<and> failure_message e \<noteq> []
    \<and> (\<forall>buf c. buf \<noteq> [] \<and> c \<noteq> Init_reset \<longrightarrow> buf_step buf c = buf)
    \<and> buf_step buf0 Init_reset = []"
proof -
  have a: "foldl buf_step [] pre = []"
    using assms(1) by (rule foldl_buf_step_passing)
  have b: "buf_step [] e = failure_message e"
    using assms(2) by (rule buf_step_first_failure)
  have c: "failure_message e \<noteq> []"
    using assms(2) by (rule failure_message_nonempty)
  have "foldl buf_step [] (pre @ e # post) = foldl buf_step (failure_message e) post"
    by (simp add: a b)
  also have "\<dots> = failure_message e"
    using c assms(3) by (rule foldl_buf_step_nonempty)
  finally show ?thesis
    using c by (simp add: grci_err_def buf_step_nonempty)
qed

theorem err_buf_keeps_first_failure_witness:
  "grci_err (foldl buf_step (buf_step ''stale'' Init_reset)
      ([Ensure True GRCI_ERR_MEM 0 ''malloc failed'']
       @ Ensure False GRCI_ERR_COMP 12 ''Constant inputs must be 0 or 1''
       # [Ensure_retnull False GRCI_ERR_SIM 0 ''submodule acc does not exist'',
          Ensure False GRCI_ERR_COMP (- 1) ''placeholder'']))
   = ''GRCI compilation error [near line 12]: Constant inputs must be 0 or 1''"
  using err_buf_keeps_first_failure
    [of "[Ensure True GRCI_ERR_MEM 0 ''malloc failed'']"
        "Ensure False GRCI_ERR_COMP 12 ''Constant inputs must be 0 or 1''"
        "[Ensure_retnull False GRCI_ERR_SIM 0 ''submodule acc does not exist'',
          Ensure False GRCI_ERR_COMP (- 1) ''placeholder'']"
        "''stale''"]
  by (simp add: grci_err_prefix_def show_int_def)

section \<open>Properties of the description list\<close>

lemma grci_compiler_init_eq: "grci_compiler_init = [nand_decl, dff_decl, ram64K_decl]"
  by (simp add: grci_compiler_init_def grci_module_desc_list_append_def
      grci_module_desc_list_init_def GRCI_MAX_MODULES_def)

lemma append_modules_extends:
  "append_modules list ds = Inr list' \<Longrightarrow> \<exists>xs. list' = list @ xs"
proof (induction ds arbitrary: list)
  case Nil
  then show ?case by simp
next
  case (Cons d ds)
  from Cons.prems obtain l1 where
    l1: "grci_module_desc_list_append list d = Inr l1" and r: "append_modules l1 ds = Inr list'"
    by (auto split: sum.splits)
  from l1 have "l1 = list @ [d]"
    by (auto simp: grci_module_desc_list_append_def split: if_splits)
  moreover from Cons.IH [OF r] obtain xs where "list' = l1 @ xs" ..
  ultimately show ?case by simp
qed

lemma grci_module_desc_list_get_first:
  "grci_module_desc_list_get list s = Some d \<Longrightarrow> grci_module_desc_list_get (list @ xs) s = Some d"
  by (induction list) (auto split: if_splits)

text \<open>
  C8. A reference to \<open>Nand\<close>, \<open>Dff\<close> or \<open>Ram64K\<close> resolves to the built-in description,
  whatever descriptions (also ones with these names) have been appended after
  \<open>grci_compiler_init\<close>: the lookup returns the first match and the built-ins come first.
\<close>

theorem builtin_names_resolve:
  assumes "append_modules grci_compiler_init ds = Inr list"
  shows "grci_module_desc_list_get list ''Nand'' = Some nand_decl
    \<and> grci_module_desc_list_get list ''Dff'' = Some dff_decl
    \<and> grci_module_desc_list_get list ''Ram64K'' = Some ram64K_decl"
proof -
  from append_modules_extends [OF assms] obtain xs where
    list: "list = [nand_decl, dff_decl, ram64K_decl] @ xs"
    by (auto simp: grci_compiler_init_eq)
  have "grci_module_desc_list_get [nand_decl, dff_decl, ram64K_decl] ''Nand'' = Some nand_decl"
    by (simp add: nand_decl_def grci_strings_equal_def)
  moreover
  have "grci_module_desc_list_get [nand_decl, dff_decl, ram64K_decl] ''Dff'' = Some dff_decl"
    by (simp add: nand_decl_def dff_decl_def grci_strings_equal_def)
  moreover
  have "grci_module_desc_list_get [nand_decl, dff_decl, ram64K_decl] ''Ram64K'' = Some ram64K_decl"
    by (simp add: nand_decl_def dff_decl_def ram64K_decl_def grci_strings_equal_def)
  ultimately show ?thesis
    unfolding list by (intro conjI grci_module_desc_list_get_first)
qed

theorem builtin_names_resolve_witness:
  "append_modules grci_compiler_init
     [Module_desc ''Nand'' [dff_decl] [None] [[Extern_conn 0]] 1 1 1 [(0, 0)] 1 1
        [1] [1] False False False [1] 1 1]
   = Inr [nand_decl, dff_decl, ram64K_decl,
          Module_desc ''Nand'' [dff_decl] [None] [[Extern_conn 0]] 1 1 1 [(0, 0)] 1 1
            [1] [1] False False False [1] 1 1]
   \<and> grci_module_desc_list_get
       [nand_decl, dff_decl, ram64K_decl,
        Module_desc ''Nand'' [dff_decl] [None] [[Extern_conn 0]] 1 1 1 [(0, 0)] 1 1
          [1] [1] False False False [1] 1 1] ''Nand'' = Some nand_decl"
proof -
  have a: "append_modules grci_compiler_init
     [Module_desc ''Nand'' [dff_decl] [None] [[Extern_conn 0]] 1 1 1 [(0, 0)] 1 1
        [1] [1] False False False [1] 1 1]
   = Inr [nand_decl, dff_decl, ram64K_decl,
          Module_desc ''Nand'' [dff_decl] [None] [[Extern_conn 0]] 1 1 1 [(0, 0)] 1 1
            [1] [1] False False False [1] 1 1]"
    by (simp add: grci_compiler_init_eq grci_module_desc_list_append_def GRCI_MAX_MODULES_def)
  show ?thesis
    using a builtin_names_resolve [OF a] by simp
qed

section \<open>Properties of the submodule lookup\<close>

lemma submodule_loop_None:
  "submodule_loop ps i nm = None \<longleftrightarrow> Some nm \<notin> set ps"
  by (induction ps i nm rule: submodule_loop.induct)
     (auto simp: grci_string_matches_def)

lemma submodule_loop_Some:
  "submodule_loop ps i nm = Some k \<Longrightarrow> i \<le> k \<and> k - i < length ps \<and> ps ! (k - i) = Some nm"
proof (induction ps i nm rule: submodule_loop.induct)
  case (1 i nm)
  then show ?case by simp
next
  case (2 rest i nm)
  from 2 have "Suc i \<le> k \<and> k - Suc i < length rest \<and> rest ! (k - Suc i) = Some nm"
    by simp
  then show ?case by (auto simp: Suc_diff_le nth_Cons')
next
  case (3 pn rest i nm)
  show ?case
  proof (cases "grci_string_matches pn nm")
    case True
    with 3 show ?thesis by (simp add: grci_string_matches_def)
  next
    case False
    with 3 have "Suc i \<le> k \<and> k - Suc i < length rest \<and> rest ! (k - Suc i) = Some nm"
      by simp
    then show ?thesis by (auto simp: Suc_diff_le nth_Cons')
  qed
qed

lemma grci_submodule_Some:
  assumes "fst (grci_submodule d nm buf) = Some i"
  shows "i < part_count d" and "i < length (part_names d)" and "part_names d ! i = Some nm"
proof -
  from assms have s: "submodule_loop (take (part_count d) (part_names d)) 0 nm = Some i"
    by (auto simp: grci_submodule_def split: option.splits prod.splits bool.splits)
  from submodule_loop_Some [OF s]
  have "i < length (take (part_count d) (part_names d))"
    and "take (part_count d) (part_names d) ! i = Some nm"
    by simp_all
  then show "i < part_count d" and "i < length (part_names d)" and "part_names d ! i = Some nm"
    by simp_all
qed

text \<open>
  C9, as the code has it. A name that matches no named part among the first
  \<open>part_count\<close> parts gives \<open>NULL\<close>; the simulation error is written when the buffer is
  empty, with the name as \<open>%.*s\<close> prints it (up to its first NUL byte), and a buffer that
  already holds an error is left as it is. A submodule that is returned is a part whose
  name was given and equals the requested one, so a part without a name is never
  returned.
\<close>

theorem submodule_unknown_name:
  "(Some nm \<notin> set (take (part_count d) (part_names d)) \<longrightarrow>
      fst (grci_submodule d nm buf) = None
      \<and> grci_err (snd (grci_submodule d nm buf)) =
          (if buf = []
           then ''GRCI simulation error: submodule '' @ takeWhile (\<lambda>c. c \<noteq> CHR 0x00) nm
                  @ '' does not exist''
           else buf))
   \<and> (\<forall>i. fst (grci_submodule d nm buf) = Some i \<longrightarrow>
        i < part_count d \<and> i < length (part_names d) \<and> part_names d ! i = Some nm)"
proof (intro conjI impI allI)
  assume "Some nm \<notin> set (take (part_count d) (part_names d))"
  then have n: "submodule_loop (take (part_count d) (part_names d)) 0 nm = None"
    by (simp add: submodule_loop_None)
  show "fst (grci_submodule d nm buf) = None"
    by (simp add: grci_submodule_def n grci_ensure_retnull_def)
  show "grci_err (snd (grci_submodule d nm buf)) =
          (if buf = []
           then ''GRCI simulation error: submodule '' @ takeWhile (\<lambda>c. c \<noteq> CHR 0x00) nm
                  @ '' does not exist''
           else buf)"
    by (simp add: grci_submodule_def n grci_ensure_retnull_def grci_err_def grci_err_prefix_def
        format_precision_s_def)
next
  fix i
  assume a: "fst (grci_submodule d nm buf) = Some i"
  show "i < part_count d" and "i < length (part_names d)" and "part_names d ! i = Some nm"
    using a by (rule grci_submodule_Some)+
qed

theorem submodule_unknown_name_witness:
  "fst (grci_submodule
      (Module_desc ''Counter'' [dff_decl, nand_decl] [Some ''bit'', None]
         [[Intern_conn 1 0], [Intern_conn 0 0, Intern_conn 0 0]] 2 0 0 [(0, 0)] 1 1
         [] [1] False False False [] 2 1) ''acc'' []) = None
   \<and> grci_err (snd (grci_submodule
      (Module_desc ''Counter'' [dff_decl, nand_decl] [Some ''bit'', None]
         [[Intern_conn 1 0], [Intern_conn 0 0, Intern_conn 0 0]] 2 0 0 [(0, 0)] 1 1
         [] [1] False False False [] 2 1) ''acc'' []))
     = ''GRCI simulation error: submodule acc does not exist''
   \<and> grci_err (snd (grci_submodule
      (Module_desc ''Counter'' [dff_decl, nand_decl] [Some ''bit'', None]
         [[Intern_conn 1 0], [Intern_conn 0 0, Intern_conn 0 0]] 2 0 0 [(0, 0)] 1 1
         [] [1] False False False [] 2 1) [CHR ''a'', CHR ''c'', CHR 0x00, CHR ''c''] []))
     = ''GRCI simulation error: submodule ac does not exist''
   \<and> fst (grci_submodule
      (Module_desc ''Counter'' [dff_decl, nand_decl] [Some ''bit'', None]
         [[Intern_conn 1 0], [Intern_conn 0 0, Intern_conn 0 0]] 2 0 0 [(0, 0)] 1 1
         [] [1] False False False [] 2 1) ''bit'' []) = Some 0"
  using submodule_unknown_name
    [of "''acc''"
        "Module_desc ''Counter'' [dff_decl, nand_decl] [Some ''bit'', None]
           [[Intern_conn 1 0], [Intern_conn 0 0, Intern_conn 0 0]] 2 0 0 [(0, 0)] 1 1
           [] [1] False False False [] 2 1"
        "[]"]
    submodule_unknown_name
    [of "[CHR ''a'', CHR ''c'', CHR 0x00, CHR ''c'']"
        "Module_desc ''Counter'' [dff_decl, nand_decl] [Some ''bit'', None]
           [[Intern_conn 1 0], [Intern_conn 0 0, Intern_conn 0 0]] 2 0 0 [(0, 0)] 1 1
           [] [1] False False False [] 2 1"
        "[]"]
  by (simp add: grci_submodule_def grci_string_matches_def)

text \<open>
  C9 as stated fails when the buffer already holds an earlier error: the call returns
  \<open>NULL\<close>, and \<open>grci_err\<close> still returns the earlier compilation error.
\<close>

theorem submodule_unknown_name_counterexample:
  "fst (grci_submodule nand_decl ''acc''
      ''GRCI compilation error [near line 2]: Slice ending index must be larger than starting index'')
     = None
   \<and> grci_err (snd (grci_submodule nand_decl ''acc''
      ''GRCI compilation error [near line 2]: Slice ending index must be larger than starting index''))
     = ''GRCI compilation error [near line 2]: Slice ending index must be larger than starting index''"
  by (simp add: grci_submodule_def nand_decl_def grci_ensure_retnull_def grci_err_def
      format_precision_s_def)

section \<open>What the evaluators preserve\<close>

lemma same_graph_refl: "same_graph s s"
  by (simp add: same_graph_def)

lemma same_graph_length: "same_graph s s' \<Longrightarrow> length (nodes s') = length (nodes s)"
  unfolding same_graph_def by (metis length_map)

lemma same_graph_trans: "same_graph s s1 \<Longrightarrow> same_graph s1 s2 \<Longrightarrow> same_graph s s2"
proof -
  assume a: "same_graph s s1" and b: "same_graph s1 s2"
  have l: "length (nodes s1) = length (nodes s)" using a by (rule same_graph_length)
  show ?thesis using a b l unfolding same_graph_def by auto
qed

lemma same_graph_node_as:
  "same_graph s s' \<Longrightarrow> n < length (nodes s) \<Longrightarrow> node_as (nodes s' ! n) = node_as (nodes s ! n)"
proof -
  assume a: "same_graph s s'" and n: "n < length (nodes s)"
  have "map node_as (nodes s') ! n = map node_as (nodes s) ! n"
    using a by (simp add: same_graph_def)
  then show ?thesis using n same_graph_length [OF a] by simp
qed

lemma nth_update_if: "j < length xs \<Longrightarrow> xs[i := x] ! j = (if i = j then x else xs ! j)"
  by (cases "i = j") simp_all

lemma map_node_as_update:
  "node_as x = node_as (ns ! n) \<Longrightarrow> map node_as (ns[n := x]) = map node_as ns"
  by (simp add: list_eq_iff_nth_eq nth_update_if)

lemma visited_update:
  "j < length ns \<Longrightarrow> visited (ns ! j) \<Longrightarrow> (visited (ns ! i) \<longrightarrow> visited x) \<Longrightarrow> visited (ns[i := x] ! j)"
  by (cases "i = j") auto

lemma same_graph_set_visited: "same_graph s (set_visited s n True)"
  by (simp add: same_graph_def set_visited_def map_node_as_update visited_update)

lemma same_graph_set_cached: "same_graph s (set_cached s n v)"
  by (simp add: same_graph_def set_cached_def map_node_as_update visited_update)

lemma same_graph_then_cached: "same_graph s t \<Longrightarrow> same_graph s (set_cached t n v)"
  by (erule same_graph_trans) (rule same_graph_set_cached)

lemma same_graph_from_visited: "same_graph (set_visited s n True) t \<Longrightarrow> same_graph s t"
  by (rule same_graph_trans [OF same_graph_set_visited])

lemma set_ram_outputs_length [simp]: "length (set_ram_outputs ns outs f) = length ns"
proof -
  have "length (foldl (\<lambda>ns' (i, out). ns'[out := (ns' ! out)\<lparr>visited := True, cached_state := f i\<rparr>]) ns xs) = length ns" for xs
    by (induction xs arbitrary: ns) (auto split: prod.splits)
  then show ?thesis by (simp add: set_ram_outputs_def)
qed

lemma set_ram_outputs_node_as: "map node_as (set_ram_outputs ns outs f) = map node_as ns"
proof -
  have "map node_as (foldl (\<lambda>ns' (i, out). ns'[out := (ns' ! out)\<lparr>visited := True, cached_state := f i\<rparr>]) ns xs) = map node_as ns" for xs
    by (induction xs arbitrary: ns) (auto split: prod.splits simp: map_node_as_update)
  then show ?thesis by (simp add: set_ram_outputs_def)
qed

lemma set_ram_outputs_visited:
  "n < length ns \<Longrightarrow> visited (ns ! n) \<Longrightarrow> visited (set_ram_outputs ns outs f ! n)"
proof -
  have "n < length ns \<Longrightarrow> visited (ns ! n) \<Longrightarrow> visited (foldl (\<lambda>ns' (i, out). ns'[out := (ns' ! out)\<lparr>visited := True, cached_state := f i\<rparr>]) ns xs ! n)" for xs
  proof (induction xs arbitrary: ns)
    case Nil
    then show ?case by simp
  next
    case (Cons x xs)
    obtain i out where x: "x = (i, out)" by (cases x)
    have "visited (ns[out := (ns ! out)\<lparr>visited := True, cached_state := f i\<rparr>] ! n)"
      using Cons.prems by (intro visited_update) simp_all
    then show ?case using Cons.IH [of "ns[out := (ns ! out)\<lparr>visited := True, cached_state := f i\<rparr>]"] Cons.prems
      by (simp add: x)
  qed
  then show "n < length ns \<Longrightarrow> visited (ns ! n) \<Longrightarrow> visited (set_ram_outputs ns outs f ! n)"
    by (simp add: set_ram_outputs_def)
qed

lemma map_ram_wiring_update:
  "ram_wiring x = ram_wiring (rs ! r) \<Longrightarrow> map ram_wiring (rs[r := x]) = map ram_wiring rs"
  by (simp add: list_eq_iff_nth_eq nth_update_if)

lemma ram_store_and_read_same_graph:
  assumes "ram_store_and_read s r load ins ads = Inr s'"
  shows "same_graph s s'"
  using assms unfolding ram_store_and_read_def Let_def same_graph_def
  by (auto split: if_splits simp: set_ram_outputs_node_as set_ram_outputs_visited
      map_ram_wiring_update ram_wiring_def)

lemma eval_seq_rel:
  assumes step: "\<And>s p s' v. ev s p = Inr (s', v) \<Longrightarrow> R s s'"
    and refl: "\<And>s. R s s"
    and trans: "\<And>s s1 s2. R s s1 \<Longrightarrow> R s1 s2 \<Longrightarrow> R s s2"
    and run: "eval_seq ev s ps = Inr (s', vs)"
  shows "R s s'"
  using run
proof (induction ps arbitrary: s s' vs)
  case Nil
  then show ?case by (simp add: refl)
next
  case (Cons p ps)
  from Cons.prems obtain s1 v vs' where
    a: "ev s p = Inr (s1, v)" and b: "eval_seq ev s1 ps = Inr (s', vs')"
    by (auto split: sum.splits prod.splits)
  show ?case using step [OF a] Cons.IH [OF b] by (rule trans)
qed

lemma grci_eval_dff_same_graph:
  "grci_eval_dff fuel s p root = Inr (s', v) \<Longrightarrow> same_graph s s'"
proof (induction fuel arbitrary: s p root s' v)
  case 0
  then show ?case by (cases p) simp_all
next
  case (Suc fuel)
  show ?case
  proof (cases p)
    case None
    with Suc.prems show ?thesis by simp
  next
    case (Some n)
    note IH = Suc.IH
    have seq: "eval_seq (\<lambda>s' p. grci_eval_dff fuel s' p False) t ps = Inr (t', vs) \<Longrightarrow> same_graph t t'"
      for t ps t' vs
      by (rule eval_seq_rel [where ev = "\<lambda>s' p. grci_eval_dff fuel s' p False"])
         (auto intro: IH same_graph_refl same_graph_trans)
    let ?s1 = "set_visited s n True"
    from Suc.prems Some have n: "n < length (nodes s)"
      by (auto split: if_splits)
    show ?thesis
    proof (cases "visited (nodes s ! n)")
      case True
      with Suc.prems Some n have "s' = s"
        by (auto split: grci_node_as.splits)
      then show ?thesis by (simp add: same_graph_refl)
    next
      case False
      note unvisited = False
      show ?thesis
      proof (cases "node_as (nodes s ! n)")
        case (Constant c)
        with Suc.prems Some n unvisited have "s' = set_cached ?s1 n c" by auto
        then show ?thesis
          by (simp add: same_graph_then_cached same_graph_set_visited)
      next
        case (Nand a b)
        with Suc.prems Some n unvisited obtain s2 l s3 r where
          a: "grci_eval_dff fuel ?s1 a False = Inr (s2, l)"
          and b: "grci_eval_dff fuel s2 b False = Inr (s3, r)"
          and s': "s' = set_cached s3 n (\<not> (l \<and> r))"
          by (auto split: if_splits sum.splits prod.splits)
        have "same_graph ?s1 s3" using IH [OF a] IH [OF b] by (rule same_graph_trans)
        then show ?thesis unfolding s'
          by (rule same_graph_then_cached [OF same_graph_from_visited])
      next
        case (Dff input ls)
        show ?thesis
        proof (cases root)
          case False
          with Suc.prems Some n unvisited Dff have "s' = ?s1" by simp
          then show ?thesis by (simp add: same_graph_set_visited)
        next
          case True
          with Suc.prems Some n unvisited Dff obtain s2 where
            a: "grci_eval_dff fuel ?s1 input False = Inr (s2, v)" and s': "s' = set_cached s2 n v"
            by (auto split: if_splits sum.splits prod.splits)
          show ?thesis unfolding s'
            using IH [OF a] by (rule same_graph_then_cached [OF same_graph_from_visited])
        qed
      next
        case (Ram64kOut r ls)
        with Suc.prems Some n unvisited obtain s2 vs where
          a: "eval_seq (\<lambda>s' p. grci_eval_dff fuel s' p False) ?s1 (ram_eval_order (rams s ! r)) = Inr (s2, vs)"
          and b: "ram_store_and_read s2 r (hd vs) (evens (tl vs)) (odds (tl vs)) = Inr s'"
          by (auto split: if_splits sum.splits prod.splits)
        have "same_graph ?s1 s'"
          using seq [OF a] ram_store_and_read_same_graph [OF b] by (rule same_graph_trans)
        then show ?thesis by (rule same_graph_from_visited)
      qed
    qed
  qed
qed

section \<open>The state buffer of a RAM block\<close>

lemma bit_or_push_of_bool:
  "n < 8 \<Longrightarrow> b < 8 \<Longrightarrow>
   bit ((c :: 8 word) OR push_bit n (of_bool p)) b \<longleftrightarrow> bit c b \<or> (b = n \<and> p)"
  by (auto simp: bit_simps)

lemma snapshot_bit: "(drop_bit n (w :: 8 word) AND 1 \<noteq> 0) = bit w n"
  by (simp add: and_one_eq bit_iff_odd_drop_bit odd_iff_mod_2_eq_one)

lemma ram64k_load_loop_bit:
  assumes "\<forall>b < 8. bit c b \<longleftrightarrow> (b < i mod 8 \<and> sts ! (8 * (i div 8) + b))"
    and "j < length data" and "8 * j + 7 < count" and "b < 8"
  shows "bit (ram64k_load_loop sts count i c data ! j) b =
           (if j < i div 8 then bit (data ! j) b else sts ! (8 * j + b))"
  using assms
proof (induction sts count i c data rule: ram64k_load_loop.induct)
  case (1 sts count i c data)
  let ?c = "c OR push_bit (i mod 8) (of_bool (sts ! i))"
  have c': "bit ?c x \<longleftrightarrow> (x < i mod 8 \<and> sts ! (8 * (i div 8) + x)) \<or> (x = i mod 8 \<and> sts ! i)"
    if "x < 8" for x
    using that "1.prems"(1) by (simp add: bit_or_push_of_bool)
  have i: "8 * (i div 8) + i mod 8 = i" by simp
  show ?case
  proof (cases "i < count")
    case False
    then have "j < i div 8" using "1.prems"(3) by linarith
    with False show ?thesis by (simp add: ram64k_load_loop.simps [of sts count i])
  next
    case True
    note lt = True
    show ?thesis
    proof (cases "i mod 8 = 7")
      case True
      have d: "Suc i div 8 = Suc (i div 8)" and m: "Suc i mod 8 = 0"
        using True by (simp_all add: div_Suc mod_Suc)
      have eq: "ram64k_load_loop sts count i c data =
                ram64k_load_loop sts count (Suc i) 0 (data[i div 8 := ?c])"
        using lt True by (simp add: ram64k_load_loop.simps [of sts count i])
      have "bit (ram64k_load_loop sts count (Suc i) 0 (data[i div 8 := ?c]) ! j) b =
              (if j < Suc i div 8 then bit (data[i div 8 := ?c] ! j) b else sts ! (8 * j + b))"
        using lt True "1.prems" by (intro "1.IH"(1)) (simp_all add: m)
      moreover have "bit (data[i div 8 := ?c] ! j) b = sts ! (8 * j + b)" if "j = i div 8"
      proof -
        have "bit ?c b \<longleftrightarrow> sts ! (8 * j + b)"
        proof (cases "b = 7")
          case True
          then show ?thesis using c' [of b] \<open>i mod 8 = 7\<close> i that by auto
        next
          case False
          then show ?thesis using c' [of b] \<open>i mod 8 = 7\<close> \<open>b < 8\<close> that by auto
        qed
        then show ?thesis using that "1.prems"(2) by simp
      qed
      ultimately show ?thesis
        unfolding eq d by (auto simp: less_Suc_eq)
    next
      case False
      have d: "Suc i div 8 = i div 8" and m: "Suc i mod 8 = Suc (i mod 8)"
        using False by (simp_all add: div_Suc mod_Suc)
      have eq: "ram64k_load_loop sts count i c data =
                ram64k_load_loop sts count (Suc i) ?c data"
        using lt False by (simp add: ram64k_load_loop.simps [of sts count i])
      have inv: "\<forall>x < 8. bit ?c x \<longleftrightarrow> (x < Suc i mod 8 \<and> sts ! (8 * (Suc i div 8) + x))"
      proof (intro allI impI)
        fix x :: nat assume "x < 8"
        show "bit ?c x \<longleftrightarrow> (x < Suc i mod 8 \<and> sts ! (8 * (Suc i div 8) + x))"
          unfolding d m using c' [OF \<open>x < 8\<close>] i by (auto simp: less_Suc_eq)
      qed
      show ?thesis
        unfolding eq using lt False "1.prems" inv
        by (subst "1.IH"(2)) (simp_all add: d)
    qed
  qed
qed

lemma ram64k_snapshot_loop_length:
  "length (ram64k_snapshot_loop data count i sts) = length sts"
proof (induction data count i sts rule: ram64k_snapshot_loop.induct)
  case (1 data count i sts)
  then show ?case by (simp add: ram64k_snapshot_loop.simps [of data count i])
qed

lemma ram64k_snapshot_loop_nth:
  "count \<le> length sts \<Longrightarrow>
   ram64k_snapshot_loop data count i sts ! k =
     (if i \<le> k \<and> k < count then bit (data ! (k div 8)) (k mod 8) else sts ! k)"
proof (induction data count i sts rule: ram64k_snapshot_loop.induct)
  case (1 data count i sts)
  show ?case
  proof (cases "i < count")
    case True
    then show ?thesis
      using "1.IH" "1.prems"
      by (auto simp: ram64k_snapshot_loop.simps [of data count i] snapshot_bit nth_list_update)
  next
    case False
    then show ?thesis by (auto simp: ram64k_snapshot_loop.simps [of data count i])
  qed
qed

text \<open>
  C6. The state buffer of a named \<open>Ram64K\<close> part and the 64 KiB store of the block
  correspond bit by bit, least significant bit first within each byte: bit \<open>i\<close> of byte
  \<open>j\<close> is the buffer element \<open>j * 8 + i\<close>, in the load at the start of a step and in
  the snapshot at its end.
\<close>

theorem ram64k_state_buffer_layout:
  assumes "length sts = GRCI_RAM64K_STATE_COUNT" and "length data = 65536"
    and "j < 65536" and "i < 8"
  shows "bit (ram64k_load_loop sts GRCI_RAM64K_STATE_COUNT 0 0 data ! j) i = sts ! (j * 8 + i)
    \<and> ram64k_snapshot_loop data GRCI_RAM64K_STATE_COUNT 0 sts ! (j * 8 + i) = bit (data ! j) i"
proof
  have "bit (ram64k_load_loop sts GRCI_RAM64K_STATE_COUNT 0 0 data ! j) i =
          (if j < 0 div 8 then bit (data ! j) i else sts ! (8 * j + i))"
    using assms by (intro ram64k_load_loop_bit) (simp_all add: GRCI_RAM64K_STATE_COUNT_def)
  then show "bit (ram64k_load_loop sts GRCI_RAM64K_STATE_COUNT 0 0 data ! j) i = sts ! (j * 8 + i)"
    by (simp add: mult.commute)
next
  have "j * 8 + i < GRCI_RAM64K_STATE_COUNT"
    using assms by (simp add: GRCI_RAM64K_STATE_COUNT_def)
  then show "ram64k_snapshot_loop data GRCI_RAM64K_STATE_COUNT 0 sts ! (j * 8 + i) = bit (data ! j) i"
    using assms by (simp add: ram64k_snapshot_loop_nth)
qed

theorem ram64k_state_buffer_layout_witness:
  "bit (ram64k_load_loop (replicate GRCI_RAM64K_STATE_COUNT True) GRCI_RAM64K_STATE_COUNT 0 0
          (replicate 65536 0) ! 3) 2
   \<and> \<not> ram64k_snapshot_loop (replicate 65536 0) GRCI_RAM64K_STATE_COUNT 0
          (replicate GRCI_RAM64K_STATE_COUNT True) ! (3 * 8 + 2)"
  using ram64k_state_buffer_layout
    [of "replicate GRCI_RAM64K_STATE_COUNT True" "replicate 65536 0" 3 2]
  by (simp add: GRCI_RAM64K_STATE_COUNT_def)

section \<open>The phases of a step\<close>

lemma grci_eval_node_same_graph:
  "grci_eval_node fuel s p = Inr (s', v) \<Longrightarrow> same_graph s s'"
proof (induction fuel arbitrary: s p s' v)
  case 0
  then show ?case by (cases p) simp_all
next
  case (Suc fuel)
  show ?case
  proof (cases p)
    case None
    with Suc.prems show ?thesis by simp
  next
    case (Some n)
    note IH = Suc.IH
    have seq: "eval_seq (\<lambda>s' p. grci_eval_dff fuel s' p False) t ps = Inr (t', vs) \<Longrightarrow> same_graph t t'"
      for t ps t' vs
      by (rule eval_seq_rel [where ev = "\<lambda>s' p. grci_eval_dff fuel s' p False"])
         (auto intro: grci_eval_dff_same_graph same_graph_refl same_graph_trans)
    let ?s1 = "set_visited s n True"
    from Suc.prems Some have n: "n < length (nodes s)"
      by (auto split: if_splits)
    show ?thesis
    proof (cases "visited (nodes s ! n)")
      case True
      with Suc.prems Some n have "s' = s"
        by (auto split: grci_node_as.splits)
      then show ?thesis by (simp add: same_graph_refl)
    next
      case False
      note unvisited = False
      show ?thesis
      proof (cases "node_as (nodes s ! n)")
        case (Constant c)
        with Suc.prems Some n unvisited have "s' = set_cached ?s1 n c" by auto
        then show ?thesis
          by (simp add: same_graph_then_cached same_graph_set_visited)
      next
        case (Nand a b)
        with Suc.prems Some n unvisited obtain s2 l s3 r where
          a: "grci_eval_node fuel ?s1 a = Inr (s2, l)"
          and b: "grci_eval_node fuel s2 b = Inr (s3, r)"
          and s': "s' = set_cached s3 n (\<not> (l \<and> r))"
          by (auto split: if_splits sum.splits prod.splits)
        have "same_graph ?s1 s3" using IH [OF a] IH [OF b] by (rule same_graph_trans)
        then show ?thesis unfolding s'
          by (rule same_graph_then_cached [OF same_graph_from_visited])
      next
        case (Dff input ls)
        with Suc.prems Some n unvisited have "s' = ?s1" by (auto split: if_splits)
        then show ?thesis by (simp add: same_graph_set_visited)
      next
        case (Ram64kOut r ls)
        with Suc.prems Some n unvisited obtain s2 vs where
          a: "eval_seq (\<lambda>s' p. grci_eval_dff fuel s' p False) ?s1 (take 16 (ram_addrs (rams s ! r))) = Inr (s2, vs)"
          and b: "ram_store_and_read s2 r False [] vs = Inr s'"
          by (auto split: if_splits sum.splits prod.splits)
        have "same_graph ?s1 s'"
          using seq [OF a] ram_store_and_read_same_graph [OF b] by (rule same_graph_trans)
        then show ?thesis by (rule same_graph_from_visited)
      qed
    qed
  qed
qed

lemma for_each_inv:
  assumes "for_each body s xs = Inr s'" and "P s"
    and "\<And>t x t'. P t \<Longrightarrow> x \<in> set xs \<Longrightarrow> body t x = Inr t' \<Longrightarrow> P t'"
  shows "P s'"
  using assms
proof (induction xs arbitrary: s)
  case Nil
  then show ?case by simp
next
  case (Cons x xs)
  from Cons.prems(1) obtain s1 where a: "body s x = Inr s1" and b: "for_each body s1 xs = Inr s'"
    by (auto split: sum.splits)
  have "P s1" using Cons.prems(2) _ a by (rule Cons.prems(3)) simp
  with b show ?case by (rule Cons.IH) (auto intro: Cons.prems(3))
qed

lemma and_then_Inr: "and_then x f = Inr y \<longleftrightarrow> (\<exists>v. x = Inr v \<and> f v = Inr y)"
  by (cases x) (simp_all add: and_then_def)

lemma nth_checked_Inr: "nth_checked xs i = Inr x \<longleftrightarrow> i < length xs \<and> x = xs ! i"
  by (auto simp: nth_checked_def)

lemma same_by_refl: "same_by g s s"
  by (simp add: same_by_def)

lemma same_by_trans: "same_by g s s1 \<Longrightarrow> same_by g s1 s2 \<Longrightarrow> same_by g s s2"
  by (simp add: same_by_def)

lemma same_graph_same_by: "same_graph s s' \<Longrightarrow> same_by g s s'"
proof -
  assume a: "same_graph s s'"
  then have "map node_as (nodes s') = map node_as (nodes s)" by (simp add: same_graph_def)
  then have "map g (map node_as (nodes s')) = map g (map node_as (nodes s))" by simp
  then show ?thesis using a by (simp add: same_by_def same_graph_def comp_def)
qed

lemma same_by_length: "same_by g s s' \<Longrightarrow> length (nodes s') = length (nodes s)"
  unfolding same_by_def by (metis length_map)

lemma same_by_nth:
  "same_by g s s' \<Longrightarrow> n < length (nodes s) \<Longrightarrow> g (node_as (nodes s' ! n)) = g (node_as (nodes s ! n))"
proof -
  assume a: "same_by g s s'" and n: "n < length (nodes s)"
  have "map (\<lambda>node. g (node_as node)) (nodes s') ! n = map (\<lambda>node. g (node_as node)) (nodes s) ! n"
    using a by (simp add: same_by_def)
  then show ?thesis using n same_by_length [OF a] by simp
qed

lemma same_by_update:
  "g (node_as x) = g (node_as (nodes s ! n)) \<Longrightarrow> same_by g s (s\<lparr>nodes := (nodes s)[n := x]\<rparr>)"
  by (simp add: same_by_def list_eq_iff_nth_eq nth_update_if)

lemma same_by_clear_visited: "same_by g s (clear_visited s)"
  by (simp add: same_by_def clear_visited_def comp_def)

lemma same_by_clear_visited_non_dff: "same_by g s (clear_visited_non_dff s)"
  by (simp add: same_by_def clear_visited_non_dff_def comp_def if_distrib cong: if_cong)

lemma same_by_set_visited: "same_by g s (set_visited s n v)"
  unfolding set_visited_def by (rule same_by_update) simp

lemma set_last_state_ignored:
  "ignores_last_state g \<Longrightarrow> set_last_state node v = Inr node' \<Longrightarrow>
   g (node_as node') = g (node_as node)"
  by (auto simp: set_last_state_def ignores_last_state_def split: grci_node_as.splits)

lemma set_constant_ignored:
  "ignores_constant g \<Longrightarrow> set_constant node v = Inr node' \<Longrightarrow>
   g (node_as node') = g (node_as node)"
  by (auto simp: set_constant_def ignores_constant_def split: grci_node_as.splits)

lemma load_dff_state_same_by:
  assumes "ignores_last_state g" and "load_dff_state sts off s j = Inr s'"
  shows "same_by g s s'"
proof -
  from assms(2) obtain n node node' where "node = nodes s ! n"
    and sl: "set_last_state node (sts ! j) = Inr node'"
    and s': "s' = s\<lparr>nodes := (nodes s)[n := node'\<lparr>cached_state := sts ! j\<rparr>]\<rparr>"
    by (auto simp: load_dff_state_def and_then_Inr nth_checked_Inr)
  then show ?thesis
    using set_last_state_ignored [OF assms(1) sl] by (simp add: same_by_update)
qed

lemma commit_dff_same_by:
  assumes "ignores_last_state g" and "commit_dff s n = Inr s'"
  shows "same_by g s s'"
proof -
  from assms(2) obtain node' where
    sl: "set_last_state (nodes s ! n) (cached_state (nodes s ! n)) = Inr node'"
    and s': "s' = s\<lparr>nodes := (nodes s)[n := node']\<rparr>"
    by (auto simp: commit_dff_def and_then_Inr nth_checked_Inr)
  then show ?thesis
    using set_last_state_ignored [OF assms(1) sl] by (simp add: same_by_update)
qed

lemma eval_dff_root_same_by:
  assumes "eval_dff_root s n = Inr s'"
  shows "same_by g s s'"
proof -
  from assms obtain s1 v where
    a: "grci_eval_dff (Suc (length (nodes s))) (set_visited s n False) (Some n) True = Inr (s1, v)"
    and s': "s' = clear_visited_non_dff s1"
    by (auto simp: eval_dff_root_def split: if_splits sum.splits prod.splits)
  have "same_by g (set_visited s n False) s1"
    using grci_eval_dff_same_graph [OF a] by (rule same_graph_same_by)
  then have "same_by g s s1"
    by (rule same_by_trans [OF same_by_set_visited])
  then show ?thesis
    unfolding s' by (rule same_by_trans) (rule same_by_clear_visited_non_dff)
qed

lemma dff_pass_same_by:
  assumes "ignores_last_state g" and "dff_pass s = Inr s'"
  shows "same_by g s s'"
proof -
  from assms(2) obtain s1 where
    a: "for_each eval_dff_root s (dff_nodes s) = Inr s1"
    and b: "for_each commit_dff s1 (dff_nodes s1) = Inr s'"
    by (auto simp: dff_pass_def and_then_Inr)
  have 1: "same_by g s s1"
    using a same_by_refl
    by (rule for_each_inv) (blast intro: same_by_trans eval_dff_root_same_by)
  have 2: "same_by g s1 s'"
    using b same_by_refl
    by (rule for_each_inv) (blast intro: same_by_trans commit_dff_same_by [OF assms(1)])
  from 1 2 show ?thesis by (rule same_by_trans)
qed

lemma same_by_sym: "same_by g s s' \<Longrightarrow> same_by g s' s"
  by (simp add: same_by_def)

lemma clock_level_Inr:
  "clock_level s = Inr c \<longleftrightarrow>
     clock s < length (nodes s) \<and> constant_of (node_as (nodes s ! clock s)) = Some c"
  by (auto simp: clock_level_def and_then_Inr nth_checked_Inr get_constant_def constant_of_def
      split: grci_node_as.splits)

lemma same_by_clock_level:
  assumes "same_by constant_of s s'" and "clock_level s = Inr c"
  shows "clock_level s' = Inr c"
proof -
  from assms(2) have n: "clock s < length (nodes s)"
    and c: "constant_of (node_as (nodes s ! clock s)) = Some c"
    by (simp_all add: clock_level_Inr)
  have "constant_of (node_as (nodes s' ! clock s)) = Some c"
    using same_by_nth [OF assms(1) n] c by simp
  moreover have "clock s' = clock s" using assms(1) by (simp add: same_by_def)
  ultimately show ?thesis
    using n same_by_length [OF assms(1)] by (simp add: clock_level_Inr)
qed

lemma ignores_last_state_constant_of: "ignores_last_state constant_of"
  by (simp add: ignores_last_state_def constant_of_def)

lemma ignores_constant_last_state_of: "ignores_constant last_state_of"
  by (simp add: ignores_constant_def last_state_of_def)

lemma toggle_clock_Inr:
  assumes "toggle_clock s = Inr s'"
  shows "\<exists>c. clock_level s = Inr c \<and> clock_level s' = Inr (\<not> c)"
    and "ignores_constant g \<Longrightarrow> same_by g s s'"
proof -
  from assms obtain c node' where n: "clock s < length (nodes s)"
    and c: "get_constant (nodes s ! clock s) = Inr c"
    and sc: "set_constant (nodes s ! clock s) (c = False) = Inr node'"
    and s': "s' = s\<lparr>nodes := (nodes s)[clock s := node']\<rparr>"
    by (auto simp: toggle_clock_def and_then_Inr nth_checked_Inr)
  from sc have node': "node_as node' = Constant (\<not> c)"
    by (auto simp: set_constant_def split: grci_node_as.splits)
  have "clock_level s = Inr c"
    using n c by (simp add: clock_level_def and_then_Inr nth_checked_Inr)
  moreover have "clock_level s' = Inr (\<not> c)"
    using n node' by (simp add: s' clock_level_Inr constant_of_def)
  ultimately show "\<exists>c. clock_level s = Inr c \<and> clock_level s' = Inr (\<not> c)" by blast
  show "same_by g s s'" if "ignores_constant g"
    unfolding s' using set_constant_ignored [OF that sc] by (rule same_by_update)
qed

lemma same_instance_refl: "same_instance m m"
  by (simp add: same_instance_def)

lemma same_instance_trans: "same_instance m m1 \<Longrightarrow> same_instance m1 m2 \<Longrightarrow> same_instance m m2"
  by (simp add: same_instance_def)

lemma publish_input_Inr:
  assumes "publish_input m i = Inr m'"
  shows "same_instance m m'" and "submodules m' = submodules m" and "outputs m' = outputs m"
    and "ignores_constant g \<Longrightarrow> same_by g (sim m) (sim m')"
    and "k \<notin> set (inst_inputs m) \<Longrightarrow> nodes (sim m') ! k = nodes (sim m) ! k"
    and "length (nodes (sim m')) = length (nodes (sim m))"
    and "clock (sim m') = clock (sim m)"
proof -
  from assms obtain node' where i: "i < length (inst_inputs m)"
    and sc: "set_constant (nodes (sim m) ! (inst_inputs m ! i)) (inputs m ! i) = Inr node'"
    and m': "m' = m\<lparr>sim := (sim m)\<lparr>nodes := (nodes (sim m))[inst_inputs m ! i := node']\<rparr>\<rparr>"
    by (auto simp: publish_input_def and_then_Inr nth_checked_Inr)
  show "same_instance m m'" "submodules m' = submodules m" "outputs m' = outputs m"
    "length (nodes (sim m')) = length (nodes (sim m))" "clock (sim m') = clock (sim m)"
    by (simp_all add: m' same_instance_def)
  show "same_by g (sim m) (sim m')" if "ignores_constant g"
    using set_constant_ignored [OF that sc] by (simp add: m' same_by_update)
  show "nodes (sim m') ! k = nodes (sim m) ! k" if "k \<notin> set (inst_inputs m)"
  proof -
    have "inst_inputs m ! i \<noteq> k" using that i by auto
    then show ?thesis by (simp add: m')
  qed
qed

lemma publish_inputs_Inr:
  assumes "for_each publish_input m xs = Inr m'"
  shows "same_instance m m'" and "submodules m' = submodules m" and "outputs m' = outputs m"
    and "ignores_constant g \<Longrightarrow> same_by g (sim m) (sim m')"
    and "k \<notin> set (inst_inputs m) \<Longrightarrow> nodes (sim m') ! k = nodes (sim m) ! k"
    and "length (nodes (sim m')) = length (nodes (sim m))"
    and "clock (sim m') = clock (sim m)"
proof -
  let ?P = "\<lambda>t. same_instance m t \<and> submodules t = submodules m \<and> outputs t = outputs m
      \<and> (ignores_constant g \<longrightarrow> same_by g (sim m) (sim t))
      \<and> (k \<notin> set (inst_inputs m) \<longrightarrow> nodes (sim t) ! k = nodes (sim m) ! k)
      \<and> length (nodes (sim t)) = length (nodes (sim m)) \<and> clock (sim t) = clock (sim m)"
  have "?P m'"
    using assms
  proof (rule for_each_inv)
    show "?P m" by (simp add: same_instance_refl same_by_refl)
  next
    fix t x t'
    assume t: "?P t" and b: "publish_input t x = Inr t'"
    have ii: "inst_inputs t = inst_inputs m" using t by (simp add: same_instance_def)
    show "?P t'"
      using t publish_input_Inr [OF b]
      by (auto simp: ii intro: same_instance_trans same_by_trans)
  qed
  then show "same_instance m m'" "submodules m' = submodules m" "outputs m' = outputs m"
    "ignores_constant g \<Longrightarrow> same_by g (sim m) (sim m')"
    "k \<notin> set (inst_inputs m) \<Longrightarrow> nodes (sim m') ! k = nodes (sim m) ! k"
    "length (nodes (sim m')) = length (nodes (sim m))" "clock (sim m') = clock (sim m)"
    by simp_all
qed

lemma load_dff_states_same_by:
  assumes "ignores_last_state g" and "for_each (load_dff_state sts off) s xs = Inr s'"
  shows "same_by g s s'"
  using assms(2) same_by_refl
  by (rule for_each_inv) (blast intro: same_by_trans load_dff_state_same_by [OF assms(1)])

lemma load_submodule_Inr:
  assumes "load_submodule m i = Inr m'"
  shows "same_instance m m'" and "submodules m' = submodules m" and "outputs m' = outputs m"
    and "ignores_last_state g \<Longrightarrow> same_by g (sim m) (sim m')"
proof -
  have "same_instance m m' \<and> submodules m' = submodules m \<and> outputs m' = outputs m
    \<and> (ignores_last_state g \<longrightarrow> same_by g (sim m) (sim m'))"
  proof (cases "part_names (desc m) ! i")
    case None
    with assms have "m' = m"
      by (auto simp: load_submodule_def and_then_Inr nth_checked_Inr)
    then show ?thesis by (simp add: same_instance_refl same_by_refl)
  next
    case (Some nm)
    show ?thesis
    proof (cases "grci_string_matches (name (parts (desc m) ! i)) ''Ram64K''")
      case True
      with assms Some obtain rs where "m' = m\<lparr>sim := (sim m)\<lparr>rams := rs\<rparr>\<rparr>"
        by (auto simp: load_submodule_def and_then_Inr nth_checked_Inr split: prod.splits if_splits)
      then show ?thesis by (simp add: same_instance_def same_by_def)
    next
      case False
      with assms Some obtain s' off len where
        "for_each (load_dff_state (states (submodules m ! i)) off) (sim m) [0..<len] = Inr s'"
        and "m' = m\<lparr>sim := s'\<rparr>"
        by (auto simp: load_submodule_def and_then_Inr nth_checked_Inr split: prod.splits)
      then show ?thesis
        by (auto simp: same_instance_def intro: load_dff_states_same_by)
    qed
  qed
  then show "same_instance m m'" "submodules m' = submodules m" "outputs m' = outputs m"
    "ignores_last_state g \<Longrightarrow> same_by g (sim m) (sim m')"
    by simp_all
qed

lemma load_submodules_Inr:
  assumes "for_each load_submodule m xs = Inr m'"
  shows "same_instance m m'" and "submodules m' = submodules m" and "outputs m' = outputs m"
    and "ignores_last_state g \<Longrightarrow> same_by g (sim m) (sim m')"
proof -
  let ?P = "\<lambda>t. same_instance m t \<and> submodules t = submodules m \<and> outputs t = outputs m
      \<and> (ignores_last_state g \<longrightarrow> same_by g (sim m) (sim t))"
  have "?P m'"
    using assms
  proof (rule for_each_inv)
    show "?P m" by (simp add: same_instance_refl same_by_refl)
  next
    fix t x t'
    assume t: "?P t" and b: "load_submodule t x = Inr t'"
    show "?P t'"
      using t load_submodule_Inr [OF b]
      by (auto intro: same_instance_trans same_by_trans)
  qed
  then show "same_instance m m'" "submodules m' = submodules m" "outputs m' = outputs m"
    "ignores_last_state g \<Longrightarrow> same_by g (sim m) (sim m')"
    by simp_all
qed

lemma eval_output_Inr:
  assumes "eval_output m k = Inr m'"
  shows "same_instance m m'" and "submodules m' = submodules m"
    and "same_graph (sim m) (sim m')" and "length (outputs m') = length (outputs m)"
proof -
  from assms obtain s' v where
    a: "grci_eval_node (Suc (length (nodes (sim m)))) (sim m) (inst_outputs m ! k) = Inr (s', v)"
    and m': "m' = m\<lparr>sim := s', outputs := (outputs m)[k := v]\<rparr>"
    by (auto simp: eval_output_def and_then_Inr nth_checked_Inr split: if_splits)
  show "same_instance m m'" "submodules m' = submodules m"
    "length (outputs m') = length (outputs m)"
    by (simp_all add: m' same_instance_def)
  show "same_graph (sim m) (sim m')"
    using grci_eval_node_same_graph [OF a] by (simp add: m')
qed

lemma eval_outputs_Inr:
  assumes "for_each eval_output m xs = Inr m'"
  shows "same_instance m m'" and "submodules m' = submodules m"
    and "same_graph (sim m) (sim m')" and "length (outputs m') = length (outputs m)"
proof -
  let ?P = "\<lambda>t. same_instance m t \<and> submodules t = submodules m
      \<and> same_graph (sim m) (sim t) \<and> length (outputs t) = length (outputs m)"
  have "?P m'"
    using assms
  proof (rule for_each_inv)
    show "?P m" by (simp add: same_instance_refl same_graph_refl)
  next
    fix t x t'
    assume t: "?P t" and b: "eval_output t x = Inr t'"
    show "?P t'"
      using t eval_output_Inr [OF b]
      by (auto intro: same_instance_trans same_graph_trans)
  qed
  then show "same_instance m m'" "submodules m' = submodules m"
    "same_graph (sim m) (sim m')" "length (outputs m') = length (outputs m)"
    by simp_all
qed

lemma snapshot_submodule_Inr:
  assumes "snapshot_submodule m i = Inr m'"
  shows "same_instance m m'" and "sim m' = sim m" and "outputs m' = outputs m"
proof -
  have "\<exists>subs. m' = m\<lparr>submodules := subs\<rparr>"
  proof (cases "part_names (desc m) ! i")
    case None
    with assms have "m' = m"
      by (auto simp: snapshot_submodule_def and_then_Inr nth_checked_Inr)
    then have "m' = m\<lparr>submodules := submodules m\<rparr>" by simp
    then show ?thesis ..
  next
    case (Some nm)
    with assms show ?thesis
      by (auto simp: snapshot_submodule_def and_then_Inr nth_checked_Inr split: prod.splits)
  qed
  then show "same_instance m m'" "sim m' = sim m" "outputs m' = outputs m"
    by (auto simp: same_instance_def)
qed

lemma snapshot_submodules_Inr:
  assumes "for_each snapshot_submodule m xs = Inr m'"
  shows "same_instance m m'" and "sim m' = sim m" and "outputs m' = outputs m"
proof -
  let ?P = "\<lambda>t. same_instance m t \<and> sim t = sim m \<and> outputs t = outputs m"
  have "?P m'"
    using assms
  proof (rule for_each_inv)
    show "?P m" by (simp add: same_instance_refl)
  next
    fix t x t'
    assume t: "?P t" and b: "snapshot_submodule t x = Inr t'"
    show "?P t'"
      using t snapshot_submodule_Inr [OF b]
      by (auto intro: same_instance_trans)
  qed
  then show "same_instance m m'" "sim m' = sim m" "outputs m' = outputs m"
    by simp_all
qed

lemma grci_step_module_Inr:
  assumes "grci_step_module m = Inr (m', result)"
  obtains m1 m2 s3 level s5 m6 where
    "for_each publish_input m [0..<input_count (desc m)] = Inr m1"
    and "for_each load_submodule m1 [0..<part_count (desc m1)] = Inr m2"
    and "toggle_clock (sim m2) = Inr s3"
    and "clock_level s3 = Inr level"
    and "(if level then dff_pass (clear_visited s3) else Inr (clear_visited s3)) = Inr s5"
    and "for_each eval_output (m2\<lparr>sim := s5\<rparr>) [0..<output_count (desc m2)] = Inr m6"
    and "for_each snapshot_submodule m6 [0..<part_count (desc m6)] = Inr m'"
    and "clock_level (sim m') = Inr result"
  using assms unfolding grci_step_module_def and_then_Inr by auto

lemma step_after_toggle_same_by:
  assumes "ignores_last_state g"
    and "(if level then dff_pass (clear_visited s3) else Inr (clear_visited s3)) = Inr s5"
  shows "same_by g s3 s5"
proof (cases level)
  case True
  with assms(2) have "dff_pass (clear_visited s3) = Inr s5" by simp
  then have "same_by g (clear_visited s3) s5" by (rule dff_pass_same_by [OF assms(1)])
  then show ?thesis by (rule same_by_trans [OF same_by_clear_visited])
next
  case False
  with assms(2) show ?thesis by (auto simp: same_by_clear_visited)
qed

lemma grci_step_module_clock:
  assumes step: "grci_step_module m = Inr (m', result)"
    and ck: "clock (sim m) \<notin> set (inst_inputs m)"
  shows "clock_level (sim m) = Inr (\<not> result)" and "clock_level (sim m') = Inr result"
    and "clock (sim m') = clock (sim m)" and "same_instance m m'"
proof -
  from step obtain m1 m2 s3 level s5 m6 where
    p1: "for_each publish_input m [0..<input_count (desc m)] = Inr m1"
    and p2: "for_each load_submodule m1 [0..<part_count (desc m1)] = Inr m2"
    and p3: "toggle_clock (sim m2) = Inr s3"
    and p4: "clock_level s3 = Inr level"
    and p5: "(if level then dff_pass (clear_visited s3) else Inr (clear_visited s3)) = Inr s5"
    and p6: "for_each eval_output (m2\<lparr>sim := s5\<rparr>) [0..<output_count (desc m2)] = Inr m6"
    and p7: "for_each snapshot_submodule m6 [0..<part_count (desc m6)] = Inr m'"
    and p8: "clock_level (sim m') = Inr result"
    by (rule grci_step_module_Inr)
  note i = ignores_last_state_constant_of
  from p3 obtain c where c2: "clock_level (sim m2) = Inr c" and c3: "clock_level s3 = Inr (\<not> c)"
    using toggle_clock_Inr(1) by blast
  have "clock_level (sim m1) = Inr c"
    using same_by_sym [OF load_submodules_Inr(4) [OF p2 i]] c2 by (rule same_by_clock_level)
  moreover have "clock_level (sim m1) = clock_level (sim m)"
    using publish_inputs_Inr(5) [OF p1 ck] publish_inputs_Inr(6,7) [OF p1]
    by (simp add: clock_level_def nth_checked_def)
  ultimately have c0: "clock_level (sim m) = Inr c" by simp
  have "clock_level s5 = Inr (\<not> c)"
    using step_after_toggle_same_by [OF i p5] c3 by (rule same_by_clock_level)
  then have "clock_level (sim m6) = Inr (\<not> c)"
    using same_graph_same_by [OF eval_outputs_Inr(3) [OF p6]]
    by (auto intro: same_by_clock_level)
  then have "clock_level (sim m') = Inr (\<not> c)"
    by (simp add: snapshot_submodules_Inr(2) [OF p7])
  with p8 have r: "result = (\<not> c)" by simp
  show "clock_level (sim m) = Inr (\<not> result)" using c0 r by simp
  show "clock_level (sim m') = Inr result" by (rule p8)
  have "clock (sim m2) = clock (sim m)"
    using load_submodules_Inr(4) [OF p2 i] publish_inputs_Inr(7) [OF p1]
    by (simp add: same_by_def)
  moreover have "clock s3 = clock (sim m2)"
    using toggle_clock_Inr(2) [OF p3, of "\<lambda>a. ()"]
    by (simp add: same_by_def ignores_constant_def)
  moreover have "clock s5 = clock s3"
    using step_after_toggle_same_by [OF i p5] by (simp add: same_by_def)
  moreover have "clock (sim m6) = clock s5"
    using eval_outputs_Inr(3) [OF p6] by (simp add: same_graph_def)
  ultimately show "clock (sim m') = clock (sim m)"
    by (simp add: snapshot_submodules_Inr(2) [OF p7])
  have "same_instance m m2"
    using publish_inputs_Inr(1) [OF p1] load_submodules_Inr(1) [OF p2]
    by (rule same_instance_trans)
  moreover have "same_instance m2 m6"
    using eval_outputs_Inr(1) [OF p6] by (simp add: same_instance_def)
  ultimately show "same_instance m m'"
    using snapshot_submodules_Inr(1) [OF p7] by (blast intro: same_instance_trans)
qed

lemma grci_simulator_init_clock: "clock_level grci_simulator_init = Inr True"
  by (simp add: grci_simulator_init_def grci_constant_new_def clock_level_def and_then_def
      nth_checked_def get_constant_def)

text \<open>
  C3. The clock node that \<open>grci_simulator_init\<close> creates holds 1. A step that returns
  has flipped the clock and returns the new level; so a step from level 1 returns 0, and
  the step after it, whatever the caller wrote to the inputs and the state buffers in
  between, returns the other level. The clock node is not one of the input nodes of the
  module: \<open>grci_init_module\<close> creates the input nodes after the clock node.
\<close>

theorem step_module_clock_alternates:
  assumes "grci_step_module m = Inr (m', level)"
    and "clock (sim m) \<notin> set (inst_inputs m)"
  shows "clock_level grci_simulator_init = Inr True
    \<and> clock_level (sim m) = Inr (\<not> level) \<and> clock_level (sim m') = Inr level
    \<and> (clock_level (sim m) = Inr True \<longrightarrow> level = False)
    \<and> (\<forall>n n' level'. sim n = sim m' \<and> inst_inputs n = inst_inputs m'
          \<and> grci_step_module n = Inr (n', level') \<longrightarrow> level' = (\<not> level))"
proof (intro conjI allI impI)
  show "clock_level grci_simulator_init = Inr True" by (rule grci_simulator_init_clock)
  show a: "clock_level (sim m) = Inr (\<not> level)" and b: "clock_level (sim m') = Inr level"
    using assms by (rule grci_step_module_clock)+
  show "level = False" if "clock_level (sim m) = Inr True"
    using a that by simp
  fix n n' level'
  assume n: "sim n = sim m' \<and> inst_inputs n = inst_inputs m'
          \<and> grci_step_module n = Inr (n', level')"
  have "clock (sim n) \<notin> set (inst_inputs n)"
    using n grci_step_module_clock(3,4) [OF assms] assms(2) by (simp add: same_instance_def)
  with n have "clock_level (sim n) = Inr (\<not> level')"
    by (intro grci_step_module_clock(1)) simp_all
  with n b show "level' = (\<not> level)" by simp
qed

section \<open>State buffers and the flip-flop pass\<close>

lemma write_states_other_fields:
  "inputs (write_states m i j vs) = inputs m \<and> outputs (write_states m i j vs) = outputs m
   \<and> sim (write_states m i j vs) = sim m \<and> desc (write_states m i j vs) = desc m
   \<and> inst_inputs (write_states m i j vs) = inst_inputs m
   \<and> inst_outputs (write_states m i j vs) = inst_outputs m
   \<and> dff_off_len (write_states m i j vs) = dff_off_len m
   \<and> length (submodules (write_states m i j vs)) = length (submodules m)"
  by (induction vs arbitrary: m j) (simp_all add: write_state_def)

lemma write_states_other_submodules:
  "k \<noteq> i \<Longrightarrow> submodules (write_states m i j vs) ! k = submodules m ! k"
  by (induction vs arbitrary: m j) (simp_all add: write_state_def)

lemma write_states_state_count:
  "i < length (submodules m) \<Longrightarrow>
   state_count (submodules (write_states m i j vs) ! i) = state_count (submodules m ! i)
   \<and> length (states (submodules (write_states m i j vs) ! i)) = length (states (submodules m ! i))"
  by (induction vs arbitrary: m j) (simp_all add: write_state_def)

lemma write_states_nth:
  "i < length (submodules m) \<Longrightarrow> k < length (states (submodules m ! i)) \<Longrightarrow>
   states (submodules (write_states m i j vs) ! i) ! k =
     (if j \<le> k \<and> k < j + length vs then vs ! (k - j) else states (submodules m ! i) ! k)"
proof (induction vs arbitrary: m j)
  case Nil
  then show ?case by auto
next
  case (Cons v vs)
  let ?m = "write_state m i j v"
  have "states (submodules (write_states ?m i (Suc j) vs) ! i) ! k =
     (if Suc j \<le> k \<and> k < Suc j + length vs then vs ! (k - Suc j)
      else states (submodules ?m ! i) ! k)"
    using Cons.prems by (intro Cons.IH) (simp_all add: write_state_def)
  moreover have "states (submodules ?m ! i) ! k = (if k = j then v else states (submodules m ! i) ! k)"
    using Cons.prems by (simp add: write_state_def nth_update_if)
  ultimately show ?case
    by (auto simp: nth_Cons' Suc_diff_le less_Suc_eq_le)
qed

lemma eval_dff_root_Inr:
  assumes "eval_dff_root s n = Inr s'"
  obtains s1 v where "n < length (nodes s)"
    and "grci_eval_dff (Suc (length (nodes s))) (set_visited s n False) (Some n) True = Inr (s1, v)"
    and "s' = clear_visited_non_dff s1"
  using assms by (auto simp: eval_dff_root_def split: if_splits sum.splits prod.splits)

text \<open>
  C2, as the code has it. After the sub-pass of a flip-flop \<open>n\<close> its \<open>visited\<close> flag is
  still set, while the flags of all nodes that are not flip-flops are cleared; the newly
  computed value sits in \<open>cached_state\<close>, and an evaluation that reaches \<open>n\<close> later in the
  pass returns \<open>last_state\<close>, the value from before the step's commit.
\<close>

theorem dff_root_keeps_previous_state:
  assumes "eval_dff_root s n = Inr s'" and "node_as (nodes s ! n) = Dff input ls"
  shows "visited (nodes s' ! n) \<and> node_as (nodes s' ! n) = Dff input ls
    \<and> grci_eval_dff (Suc fuel) s' (Some n) False = Inr (s', ls)
    \<and> (\<exists>s1. grci_eval_dff (Suc (length (nodes s))) (set_visited s n False) (Some n) True
            = Inr (s1, cached_state (nodes s' ! n)))
    \<and> (\<forall>k < length (nodes s'). node_type (nodes s' ! k) \<noteq> GRCI_NT_DFF \<longrightarrow>
          \<not> visited (nodes s' ! k))
    \<and> (\<forall>k < length (nodes s). k \<noteq> n \<and> node_type (nodes s ! k) = GRCI_NT_DFF
          \<and> visited (nodes s ! k) \<longrightarrow> visited (nodes s' ! k))"
proof -
  let ?s0 = "set_visited s n False"
  from assms(1) obtain s1 v where n: "n < length (nodes s)"
    and ev: "grci_eval_dff (Suc (length (nodes s))) ?s0 (Some n) True = Inr (s1, v)"
    and s': "s' = clear_visited_non_dff s1"
    by (rule eval_dff_root_Inr)
  have n0: "node_as (nodes ?s0 ! n) = Dff input ls" "\<not> visited (nodes ?s0 ! n)"
    "length (nodes ?s0) = length (nodes s)"
    using n assms(2) by (simp_all add: set_visited_def)
  from ev n0 n obtain s2 where
    ev2: "grci_eval_dff (length (nodes s)) (set_visited ?s0 n True) input False = Inr (s2, v)"
    and s1: "s1 = set_cached s2 n v"
    by (auto split: if_splits sum.splits prod.splits)
  have g2: "same_graph (set_visited ?s0 n True) s2"
    using ev2 by (rule grci_eval_dff_same_graph)
  have l2: "length (nodes s2) = length (nodes s)"
    using same_graph_length [OF g2] by (simp add: set_visited_def)
  have "visited (nodes (set_visited ?s0 n True) ! n)"
    using n by (simp add: set_visited_def)
  then have v2: "visited (nodes s2 ! n)"
    using g2 n by (simp add: same_graph_def set_visited_def)
  have g1: "same_graph ?s0 s1"
    using ev by (rule grci_eval_dff_same_graph)
  have l1: "length (nodes s1) = length (nodes s)"
    using same_graph_length [OF g1] by (simp add: set_visited_def)
  have as1: "node_as (nodes s1 ! k) = node_as (nodes s ! k)" if "k < length (nodes s)" for k
    using same_graph_node_as [OF g1, of k] that
    by (simp add: set_visited_def nth_update_if)
  have n1: "visited (nodes s1 ! n)" "cached_state (nodes s1 ! n) = v"
    using v2 n l2 by (simp_all add: s1 set_cached_def)
  have keep: "nodes s' ! k = nodes s1 ! k"
    if "k < length (nodes s)" "node_type (nodes s ! k) = GRCI_NT_DFF" for k
    using that as1 [of k] l1 by (simp add: s' clear_visited_non_dff_def node_type_def)
  have tn: "node_type (nodes s ! n) = GRCI_NT_DFF"
    using assms(2) by (simp add: node_type_def)
  have ls': "length (nodes s') = length (nodes s)"
    using l1 by (simp add: s' clear_visited_non_dff_def)
  have a: "visited (nodes s' ! n)" and b: "node_as (nodes s' ! n) = Dff input ls"
    and c: "cached_state (nodes s' ! n) = v"
    using keep [OF n tn] n1 as1 [OF n] assms(2) by simp_all
  have d: "grci_eval_dff (Suc fuel) s' (Some n) False = Inr (s', ls)"
    using a b n ls' by simp
  have e: "\<not> visited (nodes s' ! k)"
    if "k < length (nodes s')" "node_type (nodes s' ! k) \<noteq> GRCI_NT_DFF" for k
    using that by (auto simp: s' clear_visited_non_dff_def split: if_splits)
  have f: "visited (nodes s' ! k)"
    if "k < length (nodes s)" "k \<noteq> n" "node_type (nodes s ! k) = GRCI_NT_DFF"
      "visited (nodes s ! k)" for k
  proof -
    have "visited (nodes ?s0 ! k)" using that by (simp add: set_visited_def)
    then have "visited (nodes s1 ! k)"
      using g1 that(1) by (simp add: same_graph_def set_visited_def)
    then show ?thesis using keep [OF that(1,3)] by simp
  qed
  show ?thesis
    using a b d e f ev c by blast
qed

theorem dff_root_keeps_previous_state_witness:
  "eval_dff_root (clear_visited (example_shift_sim True True False False)) 3
     = Inr (projr (eval_dff_root (clear_visited (example_shift_sim True True False False)) 3))
   \<and> cached_state
        (nodes (projr (eval_dff_root (clear_visited (example_shift_sim True True False False)) 3)) ! 3)
   \<and> grci_eval_dff (Suc 6)
        (projr (eval_dff_root (clear_visited (example_shift_sim True True False False)) 3))
        (Some 3) False
     = Inr (projr (eval_dff_root (clear_visited (example_shift_sim True True False False)) 3), False)"
proof -
  have i: "\<not> isl (eval_dff_root (clear_visited (example_shift_sim True True False False)) 3)"
    by code_simp
  have a: "eval_dff_root (clear_visited (example_shift_sim True True False False)) 3
     = Inr (projr (eval_dff_root (clear_visited (example_shift_sim True True False False)) 3))"
    using i by (simp add: sum.collapse(2))
  have b: "node_as (nodes (clear_visited (example_shift_sim True True False False)) ! 3)
     = Dff (Some 5) False"
    by (simp add: clear_visited_def example_shift_sim_def)
  have c: "cached_state
        (nodes (projr (eval_dff_root (clear_visited (example_shift_sim True True False False)) 3)) ! 3)"
    by code_simp
  show ?thesis
    using a c dff_root_keeps_previous_state [OF a b, of 6] by simp
qed

text \<open>
  C2 as stated fails: on a rising edge with input 1 and both flip-flops at 0, the sub-pass
  of \<open>a\<close> computes 1, and an evaluation that reaches \<open>a\<close> afterwards returns 0; after the
  whole step \<open>a\<close> holds 1 and \<open>b\<close>, evaluated after \<open>a\<close> with \<open>a\<close> as its input, holds 0.
\<close>

theorem dff_new_value_not_visible_counterexample:
  "\<not> isl (eval_dff_root (clear_visited (example_shift_sim True True False False)) 3)
   \<and> cached_state
        (nodes (projr (eval_dff_root (clear_visited (example_shift_sim True True False False)) 3)) ! 3)
      = True
   \<and> grci_eval_dff 7
        (projr (eval_dff_root (clear_visited (example_shift_sim True True False False)) 3))
        (Some 3) False
      = Inr (projr (eval_dff_root (clear_visited (example_shift_sim True True False False)) 3), False)
   \<and> \<not> isl (grci_step_module (example_shift True False False False False False))
   \<and> snd (projr (grci_step_module (example_shift True False False False False False))) = True
   \<and> last_state_of (node_as (nodes (sim (fst (projr
         (grci_step_module (example_shift True False False False False False))))) ! 3)) = Some True
   \<and> last_state_of (node_as (nodes (sim (fst (projr
         (grci_step_module (example_shift True False False False False False))))) ! 4)) = Some False"
  by code_simp

theorem step_module_clock_alternates_witness:
  "clock_level (sim (example_shift True True False False False False)) = Inr True
   \<and> snd (projr (grci_step_module (example_shift True True False False False False))) = False
   \<and> clock_level (sim (fst (projr (grci_step_module
        (example_shift True True False False False False))))) = Inr False"
proof -
  let ?m = "example_shift True True False False False False"
  have i: "\<not> isl (grci_step_module ?m)"
    by code_simp
  have a: "grci_step_module ?m
      = Inr (fst (projr (grci_step_module ?m)), snd (projr (grci_step_module ?m)))"
    using i by (simp add: sum.collapse(2))
  have b: "clock (sim ?m) \<notin> set (inst_inputs ?m)"
    by (simp add: example_shift_def example_shift_sim_def)
  have c: "clock_level (sim ?m) = Inr True"
    by code_simp
  show ?thesis
    using c step_module_clock_alternates [OF a b] by simp
qed

section \<open>Memoised and combinational evaluation\<close>








lemma length_nodes_set [simp]:
  "length (nodes (set_visited t n b)) = length (nodes t)"
  "length (nodes (set_cached t n b)) = length (nodes t)"
  by (simp_all add: set_visited_def set_cached_def)

lemma node_as_set [simp]:
  "map node_as (nodes (set_visited t n b)) = map node_as (nodes t)"
  "map node_as (nodes (set_cached t n b)) = map node_as (nodes t)"
  by (simp_all add: set_visited_def set_cached_def map_node_as_update)






section \<open>The flip-flop pass of a rising edge\<close>










lemma node_type_DFF_iff:
  "node_type node = GRCI_NT_DFF \<longleftrightarrow> (\<exists>input ls. node_as node = Dff input ls)"
  by (cases "node_as node") (simp_all add: node_type_def)































lemma step_level:
  assumes "clock_level s3 = Inr level"
    and "(if level then dff_pass (clear_visited s3) else Inr (clear_visited s3)) = Inr s5"
    and "for_each eval_output (m2\<lparr>sim := s5\<rparr>) xs = Inr m6"
    and "for_each snapshot_submodule m6 ys = Inr m'"
    and "clock_level (sim m') = Inr result"
  shows "level = result"
proof -
  have "clock_level (sim m6) = Inr level"
    using same_graph_same_by [OF eval_outputs_Inr(3) [OF assms(3)]]
      same_by_clock_level [OF step_after_toggle_same_by [OF ignores_last_state_constant_of assms(2)]
        assms(1)]
    by (auto intro: same_by_clock_level)
  then show ?thesis
    using assms(5) by (simp add: snapshot_submodules_Inr(2) [OF assms(4)])
qed

lemma finite_unvisited: "finite (unvisited t)"
  by (simp add: unvisited_def)

lemma card_unvisited_le: "card (unvisited t) \<le> length (nodes t)"
proof -
  have "unvisited t \<subseteq> {..<length (nodes t)}" by (auto simp: unvisited_def)
  then have "card (unvisited t) \<le> card {..<length (nodes t)}"
    by (intro card_mono) simp_all
  then show ?thesis by simp
qed

lemma same_graph_unvisited:
  assumes "same_graph t t'"
  shows "card (unvisited t') \<le> card (unvisited t)"
proof -
  have "unvisited t' \<subseteq> unvisited t"
    using assms same_graph_length [OF assms] by (auto simp: unvisited_def same_graph_def)
  then show ?thesis by (intro card_mono finite_unvisited)
qed

lemma unvisited_set_visited:
  assumes "n < length (nodes t)" and "\<not> visited (nodes t ! n)"
  shows "card (unvisited (set_visited t n True)) < card (unvisited t)"
proof -
  have "unvisited (set_visited t n True) \<subseteq> unvisited t - {n}"
    by (auto simp: unvisited_def set_visited_def nth_update_if split: if_splits)
  then have "card (unvisited (set_visited t n True)) \<le> card (unvisited t - {n})"
    by (intro card_mono) (simp_all add: finite_unvisited)
  moreover have "n \<in> unvisited t" using assms by (simp add: unvisited_def)
  then have "card (unvisited t - {n}) < card (unvisited t)"
    by (intro card_Diff1_less finite_unvisited)
  ultimately show ?thesis by simp
qed

lemma ram_store_and_read_fuel: "ram_store_and_read t r load ins ads \<noteq> Inl Out_of_fuel"
  by (simp add: ram_store_and_read_def Let_def)

lemma eval_seq_fuel:
  assumes "\<And>u p. card (unvisited u) \<le> b \<Longrightarrow> ev u p \<noteq> Inl Out_of_fuel"
    and "\<And>u p u' v. ev u p = Inr (u', v) \<Longrightarrow> same_graph u u'"
    and "card (unvisited t) \<le> b"
  shows "eval_seq ev t ps \<noteq> Inl Out_of_fuel"
  using assms(3)
proof (induction ps arbitrary: t)
  case Nil
  then show ?case by simp
next
  case (Cons p ps)
  show ?case
  proof (cases "ev t p")
    case (Inl e)
    then show ?thesis using assms(1) [OF Cons.prems, of p] by simp
  next
    case (Inr x)
    obtain t1 v where x: "x = (t1, v)" by (cases x)
    have "card (unvisited t1) \<le> b"
      using same_graph_unvisited [OF assms(2) [OF Inr [unfolded x]]] Cons.prems by simp
    then have "eval_seq ev t1 ps \<noteq> Inl Out_of_fuel" by (rule Cons.IH)
    then show ?thesis using Inr x by (auto split: sum.splits)
  qed
qed

lemma grci_eval_dff_fuel:
  "card (unvisited t) < fuel \<Longrightarrow> grci_eval_dff fuel t p root \<noteq> Inl Out_of_fuel"
proof (induction fuel arbitrary: t p root)
  case 0
  then show ?case by simp
next
  case (Suc fuel)
  show ?case
  proof (cases p)
    case None
    then show ?thesis by simp
  next
    case (Some n)
    note IH = Suc.IH
    let ?t1 = "set_visited t n True"
    show ?thesis
    proof (cases "n < length (nodes t) \<and> \<not> visited (nodes t ! n)")
      case False
      then show ?thesis using Some by (auto split: grci_node_as.splits)
    next
      case True
      then have c1: "card (unvisited ?t1) < fuel"
        using unvisited_set_visited [of n t] Suc.prems by simp
      have after: "card (unvisited u) < fuel" if "same_graph ?t1 u" for u
        using same_graph_unvisited [OF that] c1 by simp
      have seq: "eval_seq (\<lambda>s' p. grci_eval_dff fuel s' p False) ?t1 ps \<noteq> Inl Out_of_fuel" for ps
      proof (cases fuel)
        case 0
        with c1 show ?thesis by simp
      next
        case (Suc f')
        show ?thesis
        proof (rule eval_seq_fuel [where b = f'])
          show "grci_eval_dff fuel u p False \<noteq> Inl Out_of_fuel" if "card (unvisited u) \<le> f'" for u p
            using that Suc by (intro IH) simp
          show "same_graph u u'" if "grci_eval_dff fuel u p False = Inr (u', v)" for u p u' v
            using that by (rule grci_eval_dff_same_graph)
          show "card (unvisited ?t1) \<le> f'" using c1 Suc by simp
        qed
      qed
      show ?thesis
      proof (cases "node_as (nodes t ! n)")
        case (Constant c)
        then show ?thesis using Some True by simp
      next
        case (Nand a b)
        have 1: "grci_eval_dff fuel ?t1 a False \<noteq> Inl Out_of_fuel" using c1 by (rule IH)
        have 2: "grci_eval_dff fuel t2 b False \<noteq> Inl Out_of_fuel"
          if "grci_eval_dff fuel ?t1 a False = Inr (t2, l)" for t2 l
          using after [OF grci_eval_dff_same_graph [OF that]] by (rule IH)
        show ?thesis
          using Some True Nand 1 2 by (auto split: sum.splits)
      next
        case (Dff input ls)
        have 1: "grci_eval_dff fuel ?t1 input False \<noteq> Inl Out_of_fuel" using c1 by (rule IH)
        show ?thesis
          using Some True Dff 1 by (auto split: sum.splits)
      next
        case (Ram64kOut r ls)
        show ?thesis
          using Some True Ram64kOut seq [of "ram_eval_order (rams t ! r)"] ram_store_and_read_fuel
          by (auto split: sum.splits)
      qed
    qed
  qed
qed

lemma grci_eval_node_fuel:
  "card (unvisited t) < fuel \<Longrightarrow> grci_eval_node fuel t p \<noteq> Inl Out_of_fuel"
proof (induction fuel arbitrary: t p)
  case 0
  then show ?case by simp
next
  case (Suc fuel)
  show ?case
  proof (cases p)
    case None
    then show ?thesis by simp
  next
    case (Some n)
    note IH = Suc.IH
    let ?t1 = "set_visited t n True"
    show ?thesis
    proof (cases "n < length (nodes t) \<and> \<not> visited (nodes t ! n)")
      case False
      then show ?thesis using Some by (auto split: grci_node_as.splits)
    next
      case True
      then have c1: "card (unvisited ?t1) < fuel"
        using unvisited_set_visited [of n t] Suc.prems by simp
      have after: "card (unvisited u) < fuel" if "same_graph ?t1 u" for u
        using same_graph_unvisited [OF that] c1 by simp
      have seq: "eval_seq (\<lambda>s' p. grci_eval_dff fuel s' p False) ?t1 ps \<noteq> Inl Out_of_fuel" for ps
      proof (cases fuel)
        case 0
        with c1 show ?thesis by simp
      next
        case (Suc f')
        show ?thesis
        proof (rule eval_seq_fuel [where b = f'])
          show "grci_eval_dff fuel u p False \<noteq> Inl Out_of_fuel" if "card (unvisited u) \<le> f'" for u p
            using that Suc by (intro grci_eval_dff_fuel) simp
          show "same_graph u u'" if "grci_eval_dff fuel u p False = Inr (u', v)" for u p u' v
            using that by (rule grci_eval_dff_same_graph)
          show "card (unvisited ?t1) \<le> f'" using c1 Suc by simp
        qed
      qed
      show ?thesis
      proof (cases "node_as (nodes t ! n)")
        case (Constant c)
        then show ?thesis using Some True by simp
      next
        case (Nand a b)
        have 1: "grci_eval_node fuel ?t1 a \<noteq> Inl Out_of_fuel" using c1 by (rule IH)
        have 2: "grci_eval_node fuel t2 b \<noteq> Inl Out_of_fuel"
          if "grci_eval_node fuel ?t1 a = Inr (t2, l)" for t2 l
          using after [OF grci_eval_node_same_graph [OF that]] by (rule IH)
        show ?thesis
          using Some True Nand 1 2 by (auto split: sum.splits)
      next
        case (Dff input ls)
        show ?thesis
          using Some True Dff by simp
      next
        case (Ram64kOut r ls)
        show ?thesis
          using Some True Ram64kOut seq [of "take 16 (ram_addrs (rams t ! r))"]
            ram_store_and_read_fuel
          by (auto split: sum.splits)
      qed
    qed
  qed
qed

lemma and_then_neq:
  "x \<noteq> Inl e \<Longrightarrow> (\<And>v. x = Inr v \<Longrightarrow> f v \<noteq> Inl e) \<Longrightarrow> and_then x f \<noteq> Inl e"
  by (cases x) (simp_all add: and_then_def)

lemma for_each_neq:
  "(\<And>s x. body s x \<noteq> Inl e) \<Longrightarrow> for_each body s xs \<noteq> Inl e"
  by (induction xs arbitrary: s) (auto split: sum.splits)

lemma accessors_fuel:
  "nth_checked xs i \<noteq> Inl Out_of_fuel"
  "get_constant node \<noteq> Inl Out_of_fuel"
  "set_constant node v \<noteq> Inl Out_of_fuel"
  "get_last_state node \<noteq> Inl Out_of_fuel"
  "set_last_state node v \<noteq> Inl Out_of_fuel"
  by (simp_all add: nth_checked_def get_constant_def set_constant_def get_last_state_def
      set_last_state_def split: grci_node_as.splits)

lemma publish_input_fuel: "publish_input m i \<noteq> Inl Out_of_fuel"
  unfolding publish_input_def by (intro and_then_neq accessors_fuel) simp

lemma load_dff_state_fuel: "load_dff_state sts off t j \<noteq> Inl Out_of_fuel"
  unfolding load_dff_state_def by (intro and_then_neq accessors_fuel) simp

lemma ram_of_part_fuel: "ram_of_part m off \<noteq> Inl Out_of_fuel"
  unfolding ram_of_part_def
  by (intro and_then_neq accessors_fuel) (simp split: grci_node_as.splits)

lemma load_submodule_fuel: "load_submodule m i \<noteq> Inl Out_of_fuel"
proof -
  have a: "and_then (for_each (load_dff_state sts off) t xs) (\<lambda>s'. Inr (m\<lparr>sim := s'\<rparr>))
      \<noteq> Inl Out_of_fuel" for sts off t xs
    by (intro and_then_neq for_each_neq load_dff_state_fuel) simp
  have b: "and_then (ram_of_part m off) (\<lambda>r.
             and_then (nth_checked (rams (sim m)) r) (\<lambda>ram.
               if c ram then Inl Out_of_bounds else Inr (g r ram))) \<noteq> Inl Out_of_fuel"
    for off c and g :: "nat \<Rightarrow> grci_ram64k \<Rightarrow> grci_module"
    by (intro and_then_neq accessors_fuel ram_of_part_fuel) simp
  have c: "and_then (nth_checked (submodules m) i) (\<lambda>sub.
           and_then (nth_checked (parts (desc m)) i) (\<lambda>part.
           and_then (nth_checked (dff_off_len m) i) (\<lambda>(dff_off, dff_len).
             if grci_string_matches (name part) ''Ram64K'' then
               and_then (ram_of_part m dff_off) (\<lambda>r.
               and_then (nth_checked (rams (sim m)) r) (\<lambda>ram.
                 if length (states sub) < GRCI_RAM64K_STATE_COUNT
                    \<or> length (ram_data ram) < GRCI_RAM64K_STATE_COUNT div 8
                 then Inl Out_of_bounds
                 else Inr (m\<lparr>sim := (sim m)\<lparr>rams := (rams (sim m))
                        [r := ram\<lparr>ram_data := ram64k_load_loop (states sub)
                                GRCI_RAM64K_STATE_COUNT 0 0 (ram_data ram)\<rparr>]\<rparr>\<rparr>)))
             else
               and_then (for_each (load_dff_state (states sub) dff_off) (sim m) [0..<dff_len])
                 (\<lambda>s'. Inr (m\<lparr>sim := s'\<rparr>))))) \<noteq> Inl Out_of_fuel"
    by (intro and_then_neq accessors_fuel) (simp add: a b split: prod.splits)
  show ?thesis
    unfolding load_submodule_def
    by (intro and_then_neq accessors_fuel) (simp add: c split: option.splits)
qed

lemma toggle_clock_fuel: "toggle_clock t \<noteq> Inl Out_of_fuel"
  unfolding toggle_clock_def by (intro and_then_neq accessors_fuel) simp

lemma clock_level_fuel: "clock_level t \<noteq> Inl Out_of_fuel"
  unfolding clock_level_def by (intro and_then_neq accessors_fuel)

lemma eval_dff_root_fuel: "eval_dff_root t n \<noteq> Inl Out_of_fuel"
proof -
  have "card (unvisited (set_visited t n False)) < Suc (length (nodes t))"
    using card_unvisited_le [of "set_visited t n False"] by simp
  then have "grci_eval_dff (Suc (length (nodes t))) (set_visited t n False) (Some n) True
      \<noteq> Inl Out_of_fuel"
    by (rule grci_eval_dff_fuel)
  then show ?thesis
    by (auto simp: eval_dff_root_def split: sum.splits)
qed

lemma commit_dff_fuel: "commit_dff t n \<noteq> Inl Out_of_fuel"
  unfolding commit_dff_def by (intro and_then_neq accessors_fuel) simp

lemma dff_pass_fuel: "dff_pass t \<noteq> Inl Out_of_fuel"
  unfolding dff_pass_def
  by (intro and_then_neq for_each_neq eval_dff_root_fuel commit_dff_fuel)

lemma eval_output_fuel: "eval_output m k \<noteq> Inl Out_of_fuel"
proof -
  have "card (unvisited (sim m)) < Suc (length (nodes (sim m)))"
    using card_unvisited_le [of "sim m"] by simp
  then have "grci_eval_node (Suc (length (nodes (sim m)))) (sim m) p \<noteq> Inl Out_of_fuel" for p
    by (rule grci_eval_node_fuel)
  then show ?thesis
    unfolding eval_output_def
    by (intro and_then_neq accessors_fuel) (auto split: prod.splits)
qed

lemma snapshot_dff_state_fuel: "snapshot_dff_state t off sts j \<noteq> Inl Out_of_fuel"
  unfolding snapshot_dff_state_def by (intro and_then_neq accessors_fuel) simp

lemma snapshot_submodule_fuel: "snapshot_submodule m i \<noteq> Inl Out_of_fuel"
proof -
  have a: "for_each (snapshot_dff_state t off) sts xs \<noteq> Inl Out_of_fuel" for t off sts xs
    by (intro for_each_neq snapshot_dff_state_fuel)
  have b: "and_then (ram_of_part m off) (\<lambda>r.
             and_then (nth_checked (rams (sim m)) r) (\<lambda>ram.
               if c ram then Inl Out_of_bounds else Inr (g ram))) \<noteq> Inl Out_of_fuel"
    for off c and g :: "grci_ram64k \<Rightarrow> bool list"
    by (intro and_then_neq accessors_fuel ram_of_part_fuel) simp
  have c: "and_then (nth_checked (submodules m) i) (\<lambda>sub.
           and_then (nth_checked (parts (desc m)) i) (\<lambda>part.
           and_then (nth_checked (dff_off_len m) i) (\<lambda>(dff_off, dff_len).
           and_then
             (if grci_string_matches (name part) ''Ram64K'' then
                and_then (ram_of_part m dff_off) (\<lambda>r.
                and_then (nth_checked (rams (sim m)) r) (\<lambda>ram.
                  if length (states sub) < GRCI_RAM64K_STATE_COUNT
                     \<or> length (ram_data ram) < GRCI_RAM64K_STATE_COUNT div 8
                  then Inl Out_of_bounds
                  else Inr (ram64k_snapshot_loop (ram_data ram) GRCI_RAM64K_STATE_COUNT 0
                              (states sub))))
              else for_each (snapshot_dff_state (sim m) dff_off) (states sub) [0..<dff_len])
             (\<lambda>sts. Inr (m\<lparr>submodules := (submodules m)[i := sub\<lparr>states := sts\<rparr>]\<rparr>)))))
        \<noteq> Inl Out_of_fuel"
    apply (intro and_then_neq accessors_fuel)
    apply (simp split: prod.splits)
    apply (intro allI impI conjI and_then_neq)
       apply (simp_all add: a b ram_of_part_fuel accessors_fuel)
    done
  show ?thesis
    unfolding snapshot_submodule_def
    by (intro and_then_neq accessors_fuel) (simp add: c split: option.splits)
qed

lemma grci_step_module_fuel: "grci_step_module m \<noteq> Inl Out_of_fuel"
  unfolding grci_step_module_def
  by (intro and_then_neq for_each_neq publish_input_fuel load_submodule_fuel toggle_clock_fuel
      clock_level_fuel eval_output_fuel snapshot_submodule_fuel)
     (simp_all add: dff_pass_fuel)







lemma grci_simulator_init_invs:
  "dff_cache_inv grci_simulator_init \<and> ram_outputs_ok grci_simulator_init"
  by (simp add: grci_simulator_init_def grci_constant_new_def dff_cache_inv_def
      ram_outputs_ok_def Let_def)

lemma node_constructors_dff_cache_inv:
  assumes "dff_cache_inv t"
  shows "dff_cache_inv (fst (grci_constant_new t c))"
    and "dff_cache_inv (fst (grci_nand_new t a b))"
    and "dff_cache_inv (fst (grci_dff_new t))"
    and "dff_cache_inv (fst (grci_ram64kout_new t r))"
  using assms
  by (simp_all add: dff_cache_inv_def grci_constant_new_def grci_nand_new_def grci_dff_new_def
      grci_ram64kout_new_def)



section \<open>The limit on the module definitions\<close>

lemma append_modules_result:
  "length list \<le> GRCI_MAX_MODULES \<Longrightarrow>
   append_modules list ds =
     (if length list + length ds \<le> GRCI_MAX_MODULES then Inr (list @ ds)
      else Inl Assertion_failed)"
proof (induction ds arbitrary: list)
  case Nil
  then show ?case by simp
next
  case (Cons d ds)
  show ?case
  proof (cases "length list < GRCI_MAX_MODULES")
    case True
    then have "grci_module_desc_list_append list d = Inr (list @ [d])"
      by (simp add: grci_module_desc_list_append_def)
    then show ?thesis using Cons.IH [of "list @ [d]"] True by simp
  next
    case False
    then show ?thesis by (simp add: grci_module_desc_list_append_def)
  qed
qed

text \<open>
  C7, the limit on the module definitions. The description list has 64 entries, of which
  \<open>grci_compiler_init\<close> takes three: 61 appended descriptions fit, and the append of the
  62nd fails the assertion of \<open>grci_module_desc_list_append\<close>. The program is aborted
  there (or, compiled without assertions, writes behind the array); no compilation error
  is recorded and \<open>grci_compile_src\<close> does not return.
\<close>

theorem module_limit_is_an_assertion:
  "append_modules grci_compiler_init ds =
     (if length ds \<le> 61 then Inr (grci_compiler_init @ ds) else Inl Assertion_failed)"
  by (simp add: append_modules_result grci_compiler_init_eq GRCI_MAX_MODULES_def)

section \<open>The falling edge\<close>

lemma get_last_state_of:
  "get_last_state node = Inr v \<longleftrightarrow> last_state_of (node_as node) = Some v"
  by (simp add: get_last_state_def last_state_of_def split: grci_node_as.splits)

lemma set_last_state_same:
  assumes "set_last_state node v = Inr node'" and "last_state_of (node_as node) = Some v"
  shows "node_as node' = node_as node"
  using assms by (auto simp: set_last_state_def last_state_of_def split: grci_node_as.splits)

lemma load_dff_state_in_sync:
  assumes l: "load_dff_state sts off u j = Inr u'"
    and s: "last_state_of (node_as (nodes u ! (dff_nodes u ! (j + off)))) = Some (sts ! j)"
  shows "same_by g u u'"
proof -
  from l obtain node' where
    sl: "set_last_state (nodes u ! (dff_nodes u ! (j + off))) (sts ! j) = Inr node'"
    and u': "u' = u\<lparr>nodes := (nodes u)[dff_nodes u ! (j + off) := node'\<lparr>cached_state := sts ! j\<rparr>]\<rparr>"
    by (auto simp: load_dff_state_def and_then_Inr nth_checked_Inr)
  have "node_as (node'\<lparr>cached_state := sts ! j\<rparr>) = node_as (nodes u ! (dff_nodes u ! (j + off)))"
    using set_last_state_same [OF sl s] by simp
  then show ?thesis unfolding u' by (intro same_by_update) simp
qed

lemma load_dff_state_bounds:
  assumes "load_dff_state sts off u j = Inr u'"
  shows "j + off < length (dff_nodes u)" and "dff_nodes u ! (j + off) < length (nodes u)"
  using assms by (auto simp: load_dff_state_def and_then_Inr nth_checked_Inr)

lemma load_submodule_in_sync:
  assumes l: "load_submodule t i = Inr t'"
    and i: "i < part_count (desc t)"
    and sync: "buffers_in_sync m"
    and inst: "same_instance m t" and subs: "submodules t = submodules m"
    and sb: "same_by last_state_of (sim m) (sim t)"
  shows "same_by last_state_of (sim t) (sim t')"
proof (cases "part_names (desc t) ! i")
  case None
  with l have "t' = t"
    by (auto simp: load_submodule_def and_then_Inr nth_checked_Inr)
  then show ?thesis by (simp add: same_by_refl)
next
  case (Some nm)
  show ?thesis
  proof (cases "grci_string_matches (name (parts (desc t) ! i)) ''Ram64K''")
    case True
    with l Some obtain rs where "t' = t\<lparr>sim := (sim t)\<lparr>rams := rs\<rparr>\<rparr>"
      by (auto simp: load_submodule_def and_then_Inr nth_checked_Inr split: prod.splits if_splits)
    then show ?thesis by (simp add: same_by_def)
  next
    case False
    let ?off = "fst (dff_off_len t ! i)" and ?len = "snd (dff_off_len t ! i)"
    let ?sts = "states (submodules t ! i)"
    from l Some False obtain s' where
      a: "for_each (load_dff_state ?sts ?off) (sim t) [0..<?len] = Inr s'"
      and t': "t' = t\<lparr>sim := s'\<rparr>"
      by (auto simp: load_submodule_def and_then_Inr nth_checked_Inr split: prod.splits)
    have d: "desc t = desc m" "dff_off_len t = dff_off_len m"
      using inst by (simp_all add: same_instance_def)
    have "i \<in> set [0..<part_count (desc m)]" using i d by simp
    moreover have "part_names (desc m) ! i \<noteq> None
        \<and> \<not> grci_string_matches (name (parts (desc m) ! i)) ''Ram64K''"
      using Some False d by simp
    ultimately have all: "\<forall>j \<in> set [0..<snd (dff_off_len m ! i)].
        get_last_state (nodes (sim m) ! (dff_nodes (sim m) ! (j + fst (dff_off_len m ! i))))
          = Inr (states (submodules m ! i) ! j)"
      using sync unfolding buffers_in_sync_def part_in_sync_def by blast
    have insync: "last_state_of (node_as (nodes (sim m) ! (dff_nodes (sim m) ! (j + ?off))))
        = Some (?sts ! j)" if "j < ?len" for j
    proof -
      have "j \<in> set [0..<snd (dff_off_len m ! i)]" using that d by simp
      with all have "get_last_state (nodes (sim m) ! (dff_nodes (sim m) ! (j + fst (dff_off_len m ! i))))
          = Inr (states (submodules m ! i) ! j)" by blast
      then show ?thesis by (simp add: get_last_state_of d subs)
    qed
    have "same_by last_state_of (sim t) s'"
      using a
    proof (rule for_each_inv)
      show "same_by last_state_of (sim t) (sim t)" by (rule same_by_refl)
    next
      fix u j u'
      assume u: "same_by last_state_of (sim t) u" and j: "j \<in> set [0..<?len]"
        and b: "load_dff_state ?sts ?off u j = Inr u'"
      have mu: "same_by last_state_of (sim m) u" using sb u by (rule same_by_trans)
      have dn: "dff_nodes u = dff_nodes (sim m)" using mu by (simp add: same_by_def)
      have n: "dff_nodes u ! (j + ?off) < length (nodes (sim m))"
        using load_dff_state_bounds(2) [OF b] same_by_length [OF mu] by simp
      have "last_state_of (node_as (nodes u ! (dff_nodes u ! (j + ?off))))
          = last_state_of (node_as (nodes (sim m) ! (dff_nodes u ! (j + ?off))))"
        using mu n by (rule same_by_nth)
      also have "\<dots> = Some (?sts ! j)" using insync [of j] j by (simp add: dn)
      finally have "same_by last_state_of u u'" by (rule load_dff_state_in_sync [OF b])
      with u show "same_by last_state_of (sim t) u'" by (rule same_by_trans)
    qed
    then show ?thesis by (simp add: t')
  qed
qed

lemma load_phase_in_sync:
  assumes lp: "load_phase m = Inr m2" and sync: "buffers_in_sync m"
  shows "same_by last_state_of (sim m) (sim m2)"
proof -
  from lp obtain m1 where
    p1: "for_each publish_input m [0..<input_count (desc m)] = Inr m1"
    and p2: "for_each load_submodule m1 [0..<part_count (desc m1)] = Inr m2"
    by (auto simp: load_phase_def and_then_Inr)
  let ?P = "\<lambda>t. same_instance m t \<and> submodules t = submodules m
      \<and> same_by last_state_of (sim m) (sim t)"
  have d1: "desc m1 = desc m"
    using publish_inputs_Inr(1) [OF p1] by (simp add: same_instance_def)
  have "?P m2"
    using p2
  proof (rule for_each_inv)
    show "?P m1"
      using publish_inputs_Inr(1,2) [OF p1]
        publish_inputs_Inr(4) [OF p1 ignores_constant_last_state_of]
      by simp
  next
    fix t i t'
    assume t: "?P t" and i: "i \<in> set [0..<part_count (desc m1)]"
      and b: "load_submodule t i = Inr t'"
    have "i < part_count (desc t)" using i t d1 by (simp add: same_instance_def)
    with b have "same_by last_state_of (sim t) (sim t')"
      by (rule load_submodule_in_sync [where m = m]) (use sync t in simp_all)
    then have "same_by last_state_of (sim m) (sim t')"
      using t by (blast intro: same_by_trans)
    moreover have "same_instance m t'"
      using t load_submodule_Inr(1) [OF b] by (blast intro: same_instance_trans)
    moreover have "submodules t' = submodules m"
      using t load_submodule_Inr(2) [OF b] by simp
    ultimately show "?P t'" by simp
  qed
  then show ?thesis by simp
qed

lemma for_each_post:
  assumes "for_each body s xs = Inr s'" and "I s"
    and inv: "\<And>t x t'. I t \<Longrightarrow> body t x = Inr t' \<Longrightarrow> I t'"
    and est: "\<And>t x t'. I t \<Longrightarrow> body t x = Inr t' \<Longrightarrow> Q x t'"
    and pres: "\<And>t x y t'. I t \<Longrightarrow> Q x t \<Longrightarrow> y \<noteq> x \<Longrightarrow> body t y = Inr t' \<Longrightarrow> Q x t'"
  shows "\<forall>x \<in> set xs. Q x s'"
  using assms(1,2)
proof (induction xs arbitrary: s)
  case Nil
  then show ?case by simp
next
  case (Cons x xs)
  from Cons.prems(1) obtain s1 where a: "body s x = Inr s1" and b: "for_each body s1 xs = Inr s'"
    by (auto split: sum.splits)
  have i1: "I s1" using Cons.prems(2) a by (rule inv)
  have q1: "Q x s1" using Cons.prems(2) a by (rule est)
  have "I s' \<and> Q x s'"
    using b
  proof (rule for_each_inv)
    show "I s1 \<and> Q x s1" using i1 q1 by simp
  next
    fix t y t'
    assume t: "I t \<and> Q x t" and c: "body t y = Inr t'"
    have "I t'" using inv [of t y t'] t c by simp
    moreover have "Q x t'"
      using est [of t x t'] pres [of t x y t'] t c by (cases "y = x") simp_all
    ultimately show "I t' \<and> Q x t'" by simp
  qed
  moreover have "\<forall>y \<in> set xs. Q y s'" using b i1 by (rule Cons.IH)
  ultimately show ?case by simp
qed

lemma snapshot_dff_state_Inr:
  assumes "snapshot_dff_state s off sts j = Inr sts'"
  shows "j < length sts" and "length sts' = length sts"
    and "get_last_state (nodes s ! (dff_nodes s ! (j + off))) = Inr (sts' ! j)"
    and "k \<noteq> j \<Longrightarrow> sts' ! k = sts ! k"
  using assms
  by (auto simp: snapshot_dff_state_def and_then_Inr nth_checked_Inr split: if_splits)

lemma snapshot_dff_states:
  assumes "for_each (snapshot_dff_state s off) sts xs = Inr sts'"
  shows "\<forall>j \<in> set xs. get_last_state (nodes s ! (dff_nodes s ! (j + off))) = Inr (sts' ! j)"
  using assms
proof (rule for_each_post [where I = "\<lambda>t. True"])
  fix t x t'
  assume "snapshot_dff_state s off t x = Inr t'"
  then show "get_last_state (nodes s ! (dff_nodes s ! (x + off))) = Inr (t' ! x)"
    by (rule snapshot_dff_state_Inr(3))
next
  fix t x y t'
  assume "get_last_state (nodes s ! (dff_nodes s ! (x + off))) = Inr (t ! x)"
    and "y \<noteq> x" and "snapshot_dff_state s off t y = Inr t'"
  then show "get_last_state (nodes s ! (dff_nodes s ! (x + off))) = Inr (t' ! x)"
    using snapshot_dff_state_Inr(4) [of s off t y t' x] by simp
qed simp_all

lemma snapshot_submodule_sync:
  assumes b: "snapshot_submodule t i = Inr t'"
  shows "part_in_sync t' i"
    and "k \<noteq> i \<Longrightarrow> part_in_sync t k \<Longrightarrow> part_in_sync t' k"
proof -
  have st: "same_instance t t'" "sim t' = sim t"
    using snapshot_submodule_Inr [OF b] by simp_all
  then have d: "desc t' = desc t" "dff_off_len t' = dff_off_len t"
    by (simp_all add: same_instance_def)
  show "part_in_sync t' i"
  proof (cases "part_names (desc t) ! i \<noteq> None
      \<and> \<not> grci_string_matches (name (parts (desc t) ! i)) ''Ram64K''")
    case False
    then show ?thesis by (auto simp: part_in_sync_def d)
  next
    case True
    let ?off = "fst (dff_off_len t ! i)" and ?len = "snd (dff_off_len t ! i)"
    from b True obtain sts where i: "i < length (submodules t)"
      and a: "for_each (snapshot_dff_state (sim t) ?off) (states (submodules t ! i)) [0..<?len]
                = Inr sts"
      and t': "t' = t\<lparr>submodules := (submodules t)[i := (submodules t ! i)\<lparr>states := sts\<rparr>]\<rparr>"
      by (auto simp: snapshot_submodule_def and_then_Inr nth_checked_Inr split: prod.splits)
    have "states (submodules t' ! i) = sts" using i by (simp add: t')
    then show ?thesis
      using snapshot_dff_states [OF a] by (simp add: part_in_sync_def d st)
  qed
  show "part_in_sync t' k" if "k \<noteq> i" "part_in_sync t k"
  proof -
    have "submodules t' ! k = submodules t ! k"
    proof (cases "part_names (desc t) ! i")
      case None
      with b have "t' = t"
        by (auto simp: snapshot_submodule_def and_then_Inr nth_checked_Inr)
      then show ?thesis by simp
    next
      case (Some nm)
      with b obtain sub where "t' = t\<lparr>submodules := (submodules t)[i := sub]\<rparr>"
        by (auto simp: snapshot_submodule_def and_then_Inr nth_checked_Inr split: prod.splits)
      then show ?thesis using that(1) by simp
    qed
    then show ?thesis using that(2) by (simp add: part_in_sync_def d st)
  qed
qed

lemma snapshot_submodules_sync:
  assumes "for_each snapshot_submodule m6 [0..<part_count (desc m6)] = Inr m'"
  shows "buffers_in_sync m'"
proof -
  have "\<forall>i \<in> set [0..<part_count (desc m6)]. part_in_sync m' i"
    using assms
  proof (rule for_each_post [where I = "\<lambda>t. True"])
    fix t x t'
    assume "snapshot_submodule t x = Inr t'"
    then show "part_in_sync t' x" by (rule snapshot_submodule_sync(1))
  next
    fix t x y t'
    assume "part_in_sync t x" and "y \<noteq> x" and "snapshot_submodule t y = Inr t'"
    then show "part_in_sync t' x" using snapshot_submodule_sync(2) [of t y t' x] by simp
  qed simp_all
  moreover have "desc m' = desc m6"
    using snapshot_submodules_Inr(1) [OF assms] by (simp add: same_instance_def)
  ultimately show ?thesis
    by (simp add: buffers_in_sync_def part_in_sync_def)
qed

lemma grci_step_module_sync:
  assumes "grci_step_module m = Inr (m', level)"
  shows "buffers_in_sync m'"
proof -
  from assms obtain m6 where
    "for_each snapshot_submodule m6 [0..<part_count (desc m6)] = Inr m'"
    by (rule grci_step_module_Inr)
  then show ?thesis by (rule snapshot_submodules_sync)
qed

text \<open>
  C4, as the code has it. On a falling edge the only writes to a \<open>last_state\<close> field are
  those of the load of the state buffers at the start of the step: after that load
  (\<open>load_phase\<close>) and until the step returns, every \<open>last_state\<close> keeps its value. A step
  leaves the buffers in step with the graph; if they still are when the next step starts,
  the load writes the values that are there, and a falling edge changes no \<open>last_state\<close>.
\<close>

theorem step_falling_edge_keeps_last_state:
  assumes "grci_step_module m = Inr (m', level)" and "\<not> level"
  shows "\<exists>m2. load_phase m = Inr m2
    \<and> map (\<lambda>node. last_state_of (node_as node)) (nodes (sim m'))
      = map (\<lambda>node. last_state_of (node_as node)) (nodes (sim m2))
    \<and> (buffers_in_sync m \<longrightarrow>
          map (\<lambda>node. last_state_of (node_as node)) (nodes (sim m'))
          = map (\<lambda>node. last_state_of (node_as node)) (nodes (sim m)))
    \<and> buffers_in_sync m'"
proof -
  from assms(1) obtain m1 m2 s3 lv s5 m6 where
    p1: "for_each publish_input m [0..<input_count (desc m)] = Inr m1"
    and p2: "for_each load_submodule m1 [0..<part_count (desc m1)] = Inr m2"
    and p3: "toggle_clock (sim m2) = Inr s3"
    and p4: "clock_level s3 = Inr lv"
    and p5: "(if lv then dff_pass (clear_visited s3) else Inr (clear_visited s3)) = Inr s5"
    and p6: "for_each eval_output (m2\<lparr>sim := s5\<rparr>) [0..<output_count (desc m2)] = Inr m6"
    and p7: "for_each snapshot_submodule m6 [0..<part_count (desc m6)] = Inr m'"
    and p8: "clock_level (sim m') = Inr level"
    by (rule grci_step_module_Inr)
  have lp: "load_phase m = Inr m2"
    using p1 p2 by (simp add: load_phase_def and_then_def)
  have "lv = level" using p4 p5 p6 p7 p8 by (rule step_level)
  with assms(2) p5 have s5: "s5 = clear_visited s3" by simp
  have "same_by last_state_of (sim m2) s3"
    using p3 ignores_constant_last_state_of by (rule toggle_clock_Inr(2))
  then have "same_by last_state_of (sim m2) s5"
    unfolding s5 by (rule same_by_trans) (rule same_by_clear_visited)
  then have "same_by last_state_of (sim m2) (sim m6)"
    using same_graph_same_by [OF eval_outputs_Inr(3) [OF p6]]
    by (auto intro: same_by_trans)
  then have after: "same_by last_state_of (sim m2) (sim m')"
    by (simp add: snapshot_submodules_Inr(2) [OF p7])
  have "same_by last_state_of (sim m) (sim m')" if "buffers_in_sync m"
    using load_phase_in_sync [OF lp that] after by (rule same_by_trans)
  moreover have "buffers_in_sync m'"
    using p7 by (rule snapshot_submodules_sync)
  ultimately show ?thesis
    using lp after by (auto simp: same_by_def)
qed

theorem step_falling_edge_keeps_last_state_witness:
  "map (\<lambda>node. last_state_of (node_as node))
     (nodes (sim (fst (projr (grci_step_module (example_shift True True False True False True))))))
   = map (\<lambda>node. last_state_of (node_as node))
       (nodes (sim (projr (load_phase (example_shift True True False True False True)))))
   \<and> map (\<lambda>node. last_state_of (node_as node))
     (nodes (sim (fst (projr (grci_step_module (example_shift True True False True False True))))))
   = map (\<lambda>node. last_state_of (node_as node))
       (nodes (sim (example_shift True True False True False True)))"
proof -
  let ?m = "example_shift True True False True False True"
  have i: "\<not> isl (grci_step_module ?m)"
    by code_simp
  have a: "grci_step_module ?m
      = Inr (fst (projr (grci_step_module ?m)), snd (projr (grci_step_module ?m)))"
    using i by (simp add: sum.collapse(2))
  have b: "\<not> snd (projr (grci_step_module ?m))"
    by code_simp
  have c: "buffers_in_sync ?m"
    by code_simp
  from step_falling_edge_keeps_last_state [OF a b] obtain m2 where
    "load_phase ?m = Inr m2"
    and "map (\<lambda>node. last_state_of (node_as node)) (nodes (sim (fst (projr (grci_step_module ?m)))))
      = map (\<lambda>node. last_state_of (node_as node)) (nodes (sim m2))"
    and "buffers_in_sync ?m \<longrightarrow>
      map (\<lambda>node. last_state_of (node_as node)) (nodes (sim (fst (projr (grci_step_module ?m)))))
      = map (\<lambda>node. last_state_of (node_as node)) (nodes (sim ?m))"
    by blast
  then show ?thesis using c by simp
qed

text \<open>
  C4 as stated fails: the caller has written 1 into the buffer of \<open>a\<close>, whose flip-flop
  holds 0; the next step is a falling edge, and after it the flip-flop holds 1.
\<close>

theorem step_falling_edge_counterexample:
  "\<not> isl (grci_step_module (example_shift True True False False True False))
   \<and> snd (projr (grci_step_module (example_shift True True False False True False))) = False
   \<and> last_state_of (node_as (nodes (sim (example_shift True True False False True False)) ! 3))
      = Some False
   \<and> last_state_of (node_as (nodes (sim (fst (projr
         (grci_step_module (example_shift True True False False True False))))) ! 3)) = Some True"
  by code_simp

section \<open>Snapshot and restore\<close>

lemma same_but_state_refl: "same_but_state a a"
  by (simp add: same_but_state_def)

lemma differs_in_states_iff:
  "differs_in_states D ns ns' \<longleftrightarrow>
     length ns' = length ns
     \<and> (\<forall>k < length ns. (k \<in> D \<longrightarrow> same_but_state (ns ! k) (ns' ! k))
           \<and> (k \<notin> D \<longrightarrow> ns' ! k = ns ! k))"
proof -
  have "(\<forall>k \<in> set [0..<length ns].
           if k \<in> D then same_but_state (ns ! k) (ns' ! k) else ns' ! k = ns ! k)
      \<longleftrightarrow> (\<forall>k < length ns. (k \<in> D \<longrightarrow> same_but_state (ns ! k) (ns' ! k))
           \<and> (k \<notin> D \<longrightarrow> ns' ! k = ns ! k))"
  proof
    assume a: "\<forall>k \<in> set [0..<length ns].
           if k \<in> D then same_but_state (ns ! k) (ns' ! k) else ns' ! k = ns ! k"
    show "\<forall>k < length ns. (k \<in> D \<longrightarrow> same_but_state (ns ! k) (ns' ! k))
           \<and> (k \<notin> D \<longrightarrow> ns' ! k = ns ! k)"
    proof (intro allI impI)
      fix k assume "k < length ns"
      then have "k \<in> set [0..<length ns]" by simp
      with a have "if k \<in> D then same_but_state (ns ! k) (ns' ! k) else ns' ! k = ns ! k" ..
      then show "(k \<in> D \<longrightarrow> same_but_state (ns ! k) (ns' ! k))
           \<and> (k \<notin> D \<longrightarrow> ns' ! k = ns ! k)"
        by (cases "k \<in> D") simp_all
    qed
  next
    assume a: "\<forall>k < length ns. (k \<in> D \<longrightarrow> same_but_state (ns ! k) (ns' ! k))
           \<and> (k \<notin> D \<longrightarrow> ns' ! k = ns ! k)"
    show "\<forall>k \<in> set [0..<length ns].
           if k \<in> D then same_but_state (ns ! k) (ns' ! k) else ns' ! k = ns ! k"
    proof
      fix k assume "k \<in> set [0..<length ns]"
      then have "k < length ns" by simp
      with a have "(k \<in> D \<longrightarrow> same_but_state (ns ! k) (ns' ! k))
           \<and> (k \<notin> D \<longrightarrow> ns' ! k = ns ! k)" by blast
      then show "if k \<in> D then same_but_state (ns ! k) (ns' ! k) else ns' ! k = ns ! k"
        by (cases "k \<in> D") simp_all
    qed
  qed
  then show ?thesis unfolding differs_in_states_def by (rule arg_cong2 [where f = "(\<and>)", OF refl])
qed

lemma differs_in_states_length: "differs_in_states D ns ns' \<Longrightarrow> length ns' = length ns"
  by (simp add: differs_in_states_iff)

lemma differs_in_states_nth:
  assumes "differs_in_states D ns ns'" and "k < length ns"
  shows "same_but_state (ns ! k) (ns' ! k)" and "k \<notin> D \<Longrightarrow> ns' ! k = ns ! k"
proof -
  show e: "ns' ! k = ns ! k" if "k \<notin> D"
    using assms that unfolding differs_in_states_iff by blast
  show "same_but_state (ns ! k) (ns' ! k)"
  proof (cases "k \<in> D")
    case True
    then show ?thesis using assms unfolding differs_in_states_iff by blast
  next
    case False
    then show ?thesis using e by (simp add: same_but_state_refl)
  qed
qed

lemma differs_in_states_mono:
  assumes "differs_in_states D ns ns'" and "D \<subseteq> D'"
  shows "differs_in_states D' ns ns'"
  unfolding differs_in_states_iff
proof (intro conjI allI impI)
  show "length ns' = length ns" using assms(1) by (rule differs_in_states_length)
  fix k assume k: "k < length ns"
  show "same_but_state (ns ! k) (ns' ! k)"
    using assms(1) k by (rule differs_in_states_nth(1))
  show "ns' ! k = ns ! k" if "k \<notin> D'"
  proof -
    have "k \<notin> D" using that assms(2) by blast
    with assms(1) k show ?thesis by (rule differs_in_states_nth(2))
  qed
qed

lemma differs_in_states_empty: "differs_in_states {} ns ns' \<Longrightarrow> ns' = ns"
  by (simp add: differs_in_states_iff list_eq_iff_nth_eq)

lemma differs_in_states_refl: "differs_in_states D ns ns"
  by (simp add: differs_in_states_iff same_but_state_refl)

lemma differs_in_states_update:
  assumes d: "differs_in_states D ns ns'" and x: "same_but_state x x'" and e: "n \<notin> D \<Longrightarrow> x' = x"
  shows "differs_in_states D (ns[n := x]) (ns'[n := x'])"
  unfolding differs_in_states_iff
proof (intro conjI allI impI)
  show "length (ns'[n := x']) = length (ns[n := x])"
    using differs_in_states_length [OF d] by simp
  fix k assume "k < length (ns[n := x])"
  then have k: "k < length ns" and k': "k < length ns'"
    using differs_in_states_length [OF d] by simp_all
  show "same_but_state (ns[n := x] ! k) (ns'[n := x'] ! k)"
    using differs_in_states_nth(1) [OF d k] x k k' by (simp add: nth_update_if)
  show "ns'[n := x'] ! k = ns[n := x] ! k" if "k \<notin> D"
    using differs_in_states_nth(2) [OF d k that] e that k k' by (auto simp: nth_update_if)
qed

lemma differs_in_states_update_eq:
  assumes d: "differs_in_states D ns ns'"
  shows "differs_in_states (D - {n}) (ns[n := x]) (ns'[n := x])"
  unfolding differs_in_states_iff
proof (intro conjI allI impI)
  show "length (ns'[n := x]) = length (ns[n := x])"
    using differs_in_states_length [OF d] by simp
  fix k assume "k < length (ns[n := x])"
  then have k: "k < length ns" and k': "k < length ns'"
    using differs_in_states_length [OF d] by simp_all
  show "same_but_state (ns[n := x] ! k) (ns'[n := x] ! k)"
    using differs_in_states_nth(1) [OF d k] k k' by (simp add: nth_update_if same_but_state_refl)
  show "ns'[n := x] ! k = ns[n := x] ! k" if "k \<notin> D - {n}"
  proof (cases "k = n")
    case True
    then show ?thesis using k k' by simp
  next
    case False
    with that have "k \<notin> D" by simp
    then show ?thesis using differs_in_states_nth(2) [OF d k] False by simp
  qed
qed

lemma set_last_state_rel:
  assumes "same_but_state a b"
  shows "rel_sum (=) (\<lambda>a' b'. a'\<lparr>cached_state := c\<rparr> = b'\<lparr>cached_state := c\<rparr>)
           (set_last_state a v) (set_last_state b v)"
proof -
  have v: "visited b = visited a" using assms by (simp add: same_but_state_def)
  have w: "without_last_state (node_as b) = without_last_state (node_as a)"
    using assms by (simp add: same_but_state_def)
  show ?thesis
    using v w
    by (cases "node_as a"; cases "node_as b")
       (simp_all add: set_last_state_def without_last_state_def)
qed

lemma set_constant_rel:
  assumes "same_but_state a b"
  shows "rel_sum (=) same_but_state (set_constant a v) (set_constant b v)"
  using assms
  by (cases "node_as a"; cases "node_as b")
     (simp_all add: set_constant_def without_last_state_def same_but_state_def)

lemma for_each_rel:
  assumes "R s t" and "\<And>s t x. R s t \<Longrightarrow> rel_sum (=) R (body s x) (body t x)"
  shows "rel_sum (=) R (for_each body s xs) (for_each body t xs)"
  using assms(1)
proof (induction xs arbitrary: s t)
  case Nil
  then show ?case by simp
next
  case (Cons x xs)
  have r: "rel_sum (=) R (body s x) (body t x)" using Cons.prems by (rule assms(2))
  show ?case
  proof (cases "body s x")
    case (Inl e)
    with r have "body t x = Inl e" by (cases "body t x") simp_all
    with Inl show ?thesis by simp
  next
    case (Inr s1)
    with r obtain t1 where t1: "body t x = Inr t1" and r1: "R s1 t1"
      by (cases "body t x") simp_all
    show ?thesis using Cons.IH [OF r1] Inr t1 by simp
  qed
qed

lemma for_each_append:
  "for_each body s (xs @ ys) = and_then (for_each body s xs) (\<lambda>s'. for_each body s' ys)"
  by (induction xs arbitrary: s) (simp_all add: and_then_def split: sum.splits)

lemma load_dff_state_rel:
  assumes "sims_differ D s t"
  shows "rel_sum (=)
           (\<lambda>s' t'. sims_differ (D - {dff_nodes s ! (j + off)}) s' t' \<and> dff_nodes s' = dff_nodes s)
           (load_dff_state sts off s j) (load_dff_state sts off t j)"
proof -
  let ?n = "dff_nodes s ! (j + off)"
  from assms have t: "t = s\<lparr>nodes := nodes t\<rparr>" and d: "differs_in_states D (nodes s) (nodes t)"
    by (simp_all add: sims_differ_def)
  have dn: "dff_nodes t = dff_nodes s" by (subst t) simp
  have len: "length (nodes t) = length (nodes s)" using d by (rule differs_in_states_length)
  show ?thesis
  proof (cases "j + off < length (dff_nodes s) \<and> j < length sts \<and> ?n < length (nodes s)")
    case False
    then show ?thesis
      by (auto simp: load_dff_state_def and_then_def nth_checked_def dn len)
  next
    case True
    have a: "load_dff_state sts off s j =
        and_then (set_last_state (nodes s ! ?n) (sts ! j)) (\<lambda>node'.
          Inr (s\<lparr>nodes := (nodes s)[?n := node'\<lparr>cached_state := sts ! j\<rparr>]\<rparr>))"
      using True by (simp add: load_dff_state_def and_then_def nth_checked_def)
    have b: "load_dff_state sts off t j =
        and_then (set_last_state (nodes t ! ?n) (sts ! j)) (\<lambda>node'.
          Inr (t\<lparr>nodes := (nodes t)[?n := node'\<lparr>cached_state := sts ! j\<rparr>]\<rparr>))"
      using True by (simp add: load_dff_state_def and_then_def nth_checked_def dn len)
    have sb: "same_but_state (nodes s ! ?n) (nodes t ! ?n)"
      using d True by (simp add: differs_in_states_nth(1))
    note r = set_last_state_rel [OF sb, of "sts ! j" "sts ! j"]
    show ?thesis
    proof (cases "set_last_state (nodes s ! ?n) (sts ! j)")
      case (Inl e)
      with r have "set_last_state (nodes t ! ?n) (sts ! j) = Inl e"
        by (cases "set_last_state (nodes t ! ?n) (sts ! j)") simp_all
      with Inl show ?thesis by (simp add: a b and_then_def)
    next
      case (Inr a')
      with r obtain b' where b': "set_last_state (nodes t ! ?n) (sts ! j) = Inr b'"
        and eq: "a'\<lparr>cached_state := sts ! j\<rparr> = b'\<lparr>cached_state := sts ! j\<rparr>"
        by (cases "set_last_state (nodes t ! ?n) (sts ! j)") simp_all
      let ?s' = "s\<lparr>nodes := (nodes s)[?n := a'\<lparr>cached_state := sts ! j\<rparr>]\<rparr>"
      let ?t' = "t\<lparr>nodes := (nodes t)[?n := b'\<lparr>cached_state := sts ! j\<rparr>]\<rparr>"
      have "differs_in_states (D - {?n}) (nodes ?s') (nodes ?t')"
        using differs_in_states_update_eq [OF d, of ?n "a'\<lparr>cached_state := sts ! j\<rparr>"] eq
        by simp
      moreover have "?t' = ?s'\<lparr>nodes := nodes ?t'\<rparr>" by (subst t) simp
      ultimately have "sims_differ (D - {?n}) ?s' ?t'" unfolding sims_differ_def by blast
      then show ?thesis using Inr b' by (simp add: a b and_then_def)
    qed
  qed
qed

lemma load_dff_states_rel:
  assumes "sims_differ D s t"
  shows "rel_sum (=) (sims_differ (D - set (map (\<lambda>j. dff_nodes s ! (j + off)) xs)))
           (for_each (load_dff_state sts off) s xs) (for_each (load_dff_state sts off) t xs)"
  using assms
proof (induction xs arbitrary: s t D)
  case Nil
  then show ?case by simp
next
  case (Cons x xs)
  note r = load_dff_state_rel [OF Cons.prems, of x off sts]
  show ?case
  proof (cases "load_dff_state sts off s x")
    case (Inl e)
    with r have "load_dff_state sts off t x = Inl e"
      by (cases "load_dff_state sts off t x") simp_all
    with Inl show ?thesis by simp
  next
    case (Inr s1)
    with r obtain t1 where t1: "load_dff_state sts off t x = Inr t1"
      and r1: "sims_differ (D - {dff_nodes s ! (x + off)}) s1 t1"
      and dn: "dff_nodes s1 = dff_nodes s"
      by (cases "load_dff_state sts off t x") simp_all
    have "D - {dff_nodes s ! (x + off)} - set (map (\<lambda>j. dff_nodes s1 ! (j + off)) xs)
        = D - set (map (\<lambda>j. dff_nodes s ! (j + off)) (x # xs))"
      by (auto simp: dn)
    then show ?thesis using Cons.IH [OF r1, of ] Inr t1 by simp
  qed
qed

lemma modules_differ_fields:
  assumes "modules_differ D a b"
  shows "desc b = desc a" and "inputs b = inputs a" and "inst_inputs b = inst_inputs a"
    and "submodules b = submodules a" and "dff_off_len b = dff_off_len a"
    and "dff_nodes (sim b) = dff_nodes (sim a)" and "rams (sim b) = rams (sim a)"
    and "length (nodes (sim b)) = length (nodes (sim a))"
    and "differs_in_states D (nodes (sim a)) (nodes (sim b))"
proof -
  from assms have b: "b = a\<lparr>sim := sim b\<rparr>" and t: "sim b = (sim a)\<lparr>nodes := nodes (sim b)\<rparr>"
    and d: "differs_in_states D (nodes (sim a)) (nodes (sim b))"
    by (simp_all add: modules_differ_def sims_differ_def)
  show "desc b = desc a" by (subst b) simp
  show "inputs b = inputs a" by (subst b) simp
  show "inst_inputs b = inst_inputs a" by (subst b) simp
  show "submodules b = submodules a" by (subst b) simp
  show "dff_off_len b = dff_off_len a" by (subst b) simp
  show "dff_nodes (sim b) = dff_nodes (sim a)" by (subst t) simp
  show "rams (sim b) = rams (sim a)" by (subst t) simp
  show "length (nodes (sim b)) = length (nodes (sim a))"
    using d by (rule differs_in_states_length)
  show "differs_in_states D (nodes (sim a)) (nodes (sim b))" by (rule d)
qed

lemma modules_differ_sim:
  assumes "modules_differ D a b" and "sims_differ D' s t"
  shows "modules_differ D' (a\<lparr>sim := s\<rparr>) (b\<lparr>sim := t\<rparr>)"
proof -
  from assms(1) have b: "b = a\<lparr>sim := sim b\<rparr>" by (simp add: modules_differ_def)
  have "b\<lparr>sim := t\<rparr> = a\<lparr>sim := s\<rparr>\<lparr>sim := sim (b\<lparr>sim := t\<rparr>)\<rparr>" by (subst b) simp
  then show ?thesis using assms(2) by (simp add: modules_differ_def)
qed

lemma modules_differ_mono:
  "modules_differ D a b \<Longrightarrow> D \<subseteq> D' \<Longrightarrow> modules_differ D' a b"
  unfolding modules_differ_def sims_differ_def by (blast intro: differs_in_states_mono)

lemma modules_differ_empty:
  assumes "modules_differ {} a b"
  shows "b = a"
proof -
  from assms have b: "b = a\<lparr>sim := sim b\<rparr>" and t: "sim b = (sim a)\<lparr>nodes := nodes (sim b)\<rparr>"
    and d: "differs_in_states {} (nodes (sim a)) (nodes (sim b))"
    by (simp_all add: modules_differ_def sims_differ_def)
  have "nodes (sim b) = nodes (sim a)" using d by (rule differs_in_states_empty)
  with t have "sim b = sim a" by simp
  with b show ?thesis by simp
qed

lemma publish_input_rel:
  assumes r: "modules_differ D a b"
  shows "rel_sum (=) (modules_differ D) (publish_input a x) (publish_input b x)"
proof -
  note f = modules_differ_fields [OF r]
  let ?n = "inst_inputs a ! x" and ?v = "inputs a ! x"
  show ?thesis
  proof (cases "x < length (inst_inputs a) \<and> x < length (inputs a) \<and> ?n < length (nodes (sim a))")
    case False
    then show ?thesis
      by (auto simp: publish_input_def and_then_def nth_checked_def f)
  next
    case True
    have pa: "publish_input a x =
        and_then (set_constant (nodes (sim a) ! ?n) ?v) (\<lambda>node'.
          Inr (a\<lparr>sim := (sim a)\<lparr>nodes := (nodes (sim a))[?n := node']\<rparr>\<rparr>))"
      using True by (simp add: publish_input_def and_then_def nth_checked_def)
    have pb: "publish_input b x =
        and_then (set_constant (nodes (sim b) ! ?n) ?v) (\<lambda>node'.
          Inr (b\<lparr>sim := (sim b)\<lparr>nodes := (nodes (sim b))[?n := node']\<rparr>\<rparr>))"
      using True by (simp add: publish_input_def and_then_def nth_checked_def f)
    have sb: "same_but_state (nodes (sim a) ! ?n) (nodes (sim b) ! ?n)"
      using f(9) True by (simp add: differs_in_states_nth(1))
    note rc = set_constant_rel [OF sb, of ?v]
    show ?thesis
    proof (cases "set_constant (nodes (sim a) ! ?n) ?v")
      case (Inl e)
      with rc have "set_constant (nodes (sim b) ! ?n) ?v = Inl e"
        by (cases "set_constant (nodes (sim b) ! ?n) ?v") simp_all
      with Inl show ?thesis by (simp add: pa pb and_then_def)
    next
      case (Inr a')
      with rc obtain b' where b': "set_constant (nodes (sim b) ! ?n) ?v = Inr b'"
        and ab: "same_but_state a' b'"
        by (cases "set_constant (nodes (sim b) ! ?n) ?v") simp_all
      have e: "b' = a'" if "?n \<notin> D"
      proof -
        have "nodes (sim b) ! ?n = nodes (sim a) ! ?n"
          using f(9) True that by (simp add: differs_in_states_nth(2))
        with Inr b' show ?thesis by simp
      qed
      have "differs_in_states D ((nodes (sim a))[?n := a']) ((nodes (sim b))[?n := b'])"
        using f(9) ab e by (rule differs_in_states_update)
      moreover have "sim b = (sim a)\<lparr>nodes := nodes (sim b)\<rparr>"
        using r by (simp add: modules_differ_def sims_differ_def)
      then have "(sim b)\<lparr>nodes := (nodes (sim b))[?n := b']\<rparr>
          = (sim a)\<lparr>nodes := (nodes (sim a))[?n := a']\<rparr>
              \<lparr>nodes := nodes ((sim b)\<lparr>nodes := (nodes (sim b))[?n := b']\<rparr>)\<rparr>"
        by (metis grci_simulator.select_convs(1) grci_simulator.surjective
            grci_simulator.update_convs(1))
      ultimately have "sims_differ D ((sim a)\<lparr>nodes := (nodes (sim a))[?n := a']\<rparr>)
          ((sim b)\<lparr>nodes := (nodes (sim b))[?n := b']\<rparr>)"
        unfolding sims_differ_def by simp
      with r have "modules_differ D (a\<lparr>sim := (sim a)\<lparr>nodes := (nodes (sim a))[?n := a']\<rparr>\<rparr>)
          (b\<lparr>sim := (sim b)\<lparr>nodes := (nodes (sim b))[?n := b']\<rparr>\<rparr>)"
        by (rule modules_differ_sim)
      then show ?thesis using Inr b' by (simp add: pa pb and_then_def)
    qed
  qed
qed

lemma ram_of_part_rel:
  assumes r: "modules_differ D a b"
  shows "ram_of_part b off = ram_of_part a off"
proof -
  note f = modules_differ_fields [OF r]
  let ?n = "dff_nodes (sim a) ! off"
  show ?thesis
  proof (cases "off < length (dff_nodes (sim a)) \<and> ?n < length (nodes (sim a))")
    case False
    then show ?thesis
      by (auto simp: ram_of_part_def and_then_def nth_checked_def f)
  next
    case True
    have sb: "same_but_state (nodes (sim a) ! ?n) (nodes (sim b) ! ?n)"
      using f(9) True by (simp add: differs_in_states_nth(1))
    have "(case node_as (nodes (sim b) ! ?n) of Ram64kOut r ls \<Rightarrow> Inr r
             | _ \<Rightarrow> Inl Assertion_failed)
        = (case node_as (nodes (sim a) ! ?n) of Ram64kOut r ls \<Rightarrow> Inr r
             | _ \<Rightarrow> Inl Assertion_failed)"
      using sb
      by (cases "node_as (nodes (sim a) ! ?n)"; cases "node_as (nodes (sim b) ! ?n)")
         (simp_all add: same_but_state_def without_last_state_def)
    then show ?thesis
      using True by (simp add: ram_of_part_def and_then_def nth_checked_def f)
  qed
qed

lemma sims_differ_rams:
  assumes "sims_differ D s t"
  shows "sims_differ D (s\<lparr>rams := x\<rparr>) (t\<lparr>rams := x\<rparr>)"
proof -
  from assms have t: "t = s\<lparr>nodes := nodes t\<rparr>" and d: "differs_in_states D (nodes s) (nodes t)"
    by (simp_all add: sims_differ_def)
  have "t\<lparr>rams := x\<rparr> = s\<lparr>rams := x\<rparr>\<lparr>nodes := nodes (t\<lparr>rams := x\<rparr>)\<rparr>" by (subst t) simp
  then show ?thesis using d by (simp add: sims_differ_def)
qed

lemma load_submodule_rel:
  assumes r: "modules_differ D a b"
  shows "rel_sum (=)
           (modules_differ
              (D - (if part_names (desc a) ! j \<noteq> None
                       \<and> \<not> grci_string_matches (name (parts (desc a) ! j)) ''Ram64K''
                    then set (part_nodes a j) else {})))
           (load_submodule a j) (load_submodule b j)"
proof -
  note f = modules_differ_fields [OF r]
  have sd: "sims_differ D (sim a) (sim b)" using r by (simp add: modules_differ_def)
  show ?thesis
  proof (cases "j < length (part_names (desc a))")
    case False
    then show ?thesis
      by (simp add: load_submodule_def and_then_def nth_checked_def f)
  next
    case j: True
    show ?thesis
    proof (cases "part_names (desc a) ! j")
      case None
      then show ?thesis
        using j r by (simp add: load_submodule_def and_then_def nth_checked_def f)
    next
      case (Some nm)
      show ?thesis
      proof (cases "j < length (submodules a) \<and> j < length (parts (desc a))
          \<and> j < length (dff_off_len a)")
        case False
        then show ?thesis
          using j Some by (auto simp: load_submodule_def and_then_def nth_checked_def f)
      next
        case b: True
        obtain off len where ol: "dff_off_len a ! j = (off, len)"
          by (cases "dff_off_len a ! j")
        let ?sts = "states (submodules a ! j)"
        show ?thesis
        proof (cases "grci_string_matches (name (parts (desc a) ! j)) ''Ram64K''")
          case True
          let ?C = "\<lambda>ram. length ?sts < GRCI_RAM64K_STATE_COUNT
              \<or> length (ram_data ram) < GRCI_RAM64K_STATE_COUNT div 8"
          let ?G = "\<lambda>r ram. (rams (sim a))
              [r := ram\<lparr>ram_data := ram64k_load_loop ?sts GRCI_RAM64K_STATE_COUNT 0 0
                        (ram_data ram)\<rparr>]"
          have la: "load_submodule a j =
              and_then (ram_of_part a off) (\<lambda>r.
              and_then (nth_checked (rams (sim a)) r) (\<lambda>ram.
                if ?C ram then Inl Out_of_bounds
                else Inr (a\<lparr>sim := (sim a)\<lparr>rams := ?G r ram\<rparr>\<rparr>)))"
            using j Some b ol True
            by (simp add: load_submodule_def and_then_def nth_checked_def)
          let ?H = "\<lambda>r ram. (rams (sim b))
              [r := ram\<lparr>ram_data := ram64k_load_loop ?sts GRCI_RAM64K_STATE_COUNT 0 0
                        (ram_data ram)\<rparr>]"
          have lb: "load_submodule b j =
              and_then (ram_of_part b off) (\<lambda>r.
              and_then (nth_checked (rams (sim b)) r) (\<lambda>ram.
                if ?C ram then Inl Out_of_bounds
                else Inr (b\<lparr>sim := (sim b)\<lparr>rams := ?H r ram\<rparr>\<rparr>)))"
            using j Some b ol True
            by (simp add: load_submodule_def and_then_def nth_checked_def f(1,4,5))
          have rp: "ram_of_part b off = ram_of_part a off" using r by (rule ram_of_part_rel)
          have md: "modules_differ D (a\<lparr>sim := (sim a)\<lparr>rams := x\<rparr>\<rparr>)
              (b\<lparr>sim := (sim b)\<lparr>rams := x\<rparr>\<rparr>)" for x
            using r sims_differ_rams [OF sd] by (rule modules_differ_sim)
          show ?thesis
          proof (cases "ram_of_part a off")
            case (Inl e)
            then show ?thesis by (simp add: la lb rp and_then_def)
          next
            case (Inr k)
            show ?thesis
            proof (cases "k < length (rams (sim a)) \<and> \<not> ?C (rams (sim a) ! k)")
              case False
              then show ?thesis
                using Inr by (auto simp: la lb rp and_then_def nth_checked_def f(7))
            next
              case ok: True
              have "load_submodule a j
                  = Inr (a\<lparr>sim := (sim a)\<lparr>rams := ?G k (rams (sim a) ! k)\<rparr>\<rparr>)"
                using Inr ok by (simp add: la and_then_def nth_checked_def)
              moreover have "load_submodule b j
                  = Inr (b\<lparr>sim := (sim b)\<lparr>rams := ?G k (rams (sim a) ! k)\<rparr>\<rparr>)"
                using Inr ok by (simp add: lb rp and_then_def nth_checked_def f(7))
              ultimately show ?thesis using md True by simp
            qed
          qed
        next
          case False
          have la: "load_submodule a j =
              and_then (for_each (load_dff_state ?sts off) (sim a) [0..<len])
                (\<lambda>s'. Inr (a\<lparr>sim := s'\<rparr>))"
            using j Some b ol False
            by (simp add: load_submodule_def and_then_def nth_checked_def)
          have lb: "load_submodule b j =
              and_then (for_each (load_dff_state ?sts off) (sim b) [0..<len])
                (\<lambda>s'. Inr (b\<lparr>sim := s'\<rparr>))"
            using j Some b ol False
            by (simp add: load_submodule_def and_then_def nth_checked_def f)
          have pn: "set (part_nodes a j) = set (map (\<lambda>k. dff_nodes (sim a) ! (k + off)) [0..<len])"
            by (simp add: part_nodes_def ol)
          note lr = load_dff_states_rel [OF sd, of off "[0..<len]" ?sts]
          show ?thesis
          proof (cases "for_each (load_dff_state ?sts off) (sim a) [0..<len]")
            case (Inl e)
            with lr have "for_each (load_dff_state ?sts off) (sim b) [0..<len] = Inl e"
              by (cases "for_each (load_dff_state ?sts off) (sim b) [0..<len]") simp_all
            with Inl show ?thesis by (simp add: la lb and_then_def)
          next
            case (Inr s')
            with lr obtain t' where
              t': "for_each (load_dff_state ?sts off) (sim b) [0..<len] = Inr t'"
              and st: "sims_differ (D - set (map (\<lambda>k. dff_nodes (sim a) ! (k + off)) [0..<len])) s' t'"
              by (cases "for_each (load_dff_state ?sts off) (sim b) [0..<len]") simp_all
            have "modules_differ (D - set (part_nodes a j)) (a\<lparr>sim := s'\<rparr>) (b\<lparr>sim := t'\<rparr>)"
              unfolding pn using r st by (rule modules_differ_sim)
            then show ?thesis
              using Inr t' Some False by (simp add: la lb and_then_def)
          qed
        qed
      qed
    qed
  qed
qed

lemma load_submodule_rel_weak:
  assumes r: "modules_differ D a b"
  shows "rel_sum (=) (modules_differ D) (load_submodule a j) (load_submodule b j)"
proof -
  let ?X = "if part_names (desc a) ! j \<noteq> None
               \<and> \<not> grci_string_matches (name (parts (desc a) ! j)) ''Ram64K''
            then set (part_nodes a j) else {}"
  note lr = load_submodule_rel [OF r, of j]
  show ?thesis
  proof (cases "load_submodule a j")
    case (Inl e)
    with lr have "load_submodule b j = Inl e" by (cases "load_submodule b j") simp_all
    with Inl show ?thesis by simp
  next
    case (Inr a')
    with lr obtain b' where b': "load_submodule b j = Inr b'"
      and ab: "modules_differ (D - ?X) a' b'"
      by (cases "load_submodule b j") simp_all
    have "modules_differ D a' b'" using ab by (rule modules_differ_mono) blast
    with Inr b' show ?thesis by simp
  qed
qed

lemma load_submodule_restores:
  assumes r: "modules_differ D a b"
    and named: "part_names (desc a) ! i \<noteq> None"
    and nonram: "\<not> grci_string_matches (name (parts (desc a) ! i)) ''Ram64K''"
    and sub: "D \<subseteq> set (part_nodes a i)"
  shows "load_submodule b i = load_submodule a i"
proof -
  have e: "D - set (part_nodes a i) = {}" using sub by blast
  have x: "(if part_names (desc a) ! i \<noteq> None
               \<and> \<not> grci_string_matches (name (parts (desc a) ! i)) ''Ram64K''
            then set (part_nodes a i) else {}) = set (part_nodes a i)"
    using named nonram by simp
  have lr: "rel_sum (=) (modules_differ {}) (load_submodule a i) (load_submodule b i)"
    using load_submodule_rel [OF r, of i] unfolding x e .
  show ?thesis
  proof (cases "load_submodule a i")
    case (Inl e)
    with lr show ?thesis by (cases "load_submodule b i") simp_all
  next
    case (Inr a')
    with lr obtain b' where "load_submodule b i = Inr b'" and "modules_differ {} a' b'"
      by (cases "load_submodule b i") simp_all
    then show ?thesis using Inr modules_differ_empty by simp
  qed
qed

lemma load_submodules_restore:
  assumes r: "modules_differ D a b"
    and i: "i < part_count (desc a)"
    and named: "part_names (desc a) ! i \<noteq> None"
    and nonram: "\<not> grci_string_matches (name (parts (desc a) ! i)) ''Ram64K''"
    and sub: "D \<subseteq> set (part_nodes a i)"
  shows "for_each load_submodule b [0..<part_count (desc b)]
       = for_each load_submodule a [0..<part_count (desc a)]"
proof -
  let ?pc = "part_count (desc a)"
  have db: "desc b = desc a" using r by (rule modules_differ_fields(1))
  have split: "[0..<?pc] = [0..<i] @ i # [Suc i..<?pc]"
    using i by (metis less_imp_le_nat upt_add_eq_append upt_conv_Cons le0 le_add_diff_inverse plus_nat.add_0)
  have pre: "rel_sum (=) (modules_differ D)
      (for_each load_submodule a [0..<i]) (for_each load_submodule b [0..<i])"
    using r by (rule for_each_rel) (rule load_submodule_rel_weak)
  have "for_each load_submodule b ([0..<i] @ i # [Suc i..<?pc])
      = for_each load_submodule a ([0..<i] @ i # [Suc i..<?pc])"
  proof (cases "for_each load_submodule a [0..<i]")
    case (Inl e)
    with pre have "for_each load_submodule b [0..<i] = Inl e"
      by (cases "for_each load_submodule b [0..<i]") simp_all
    with Inl show ?thesis by (simp add: for_each_append and_then_def)
  next
    case (Inr a2)
    with pre obtain b2 where b2: "for_each load_submodule b [0..<i] = Inr b2"
      and r2: "modules_differ D a2 b2"
      by (cases "for_each load_submodule b [0..<i]") simp_all
    have inst: "same_instance a a2" using Inr by (rule load_submodules_Inr(1))
    have "same_by constant_of (sim a) (sim a2)"
      using Inr ignores_last_state_constant_of by (rule load_submodules_Inr(4))
    then have dn: "dff_nodes (sim a2) = dff_nodes (sim a)" by (simp add: same_by_def)
    have d2: "desc a2 = desc a" and o2: "dff_off_len a2 = dff_off_len a"
      using inst by (simp_all add: same_instance_def)
    have pn: "part_nodes a2 i = part_nodes a i" by (simp add: part_nodes_def dn o2)
    have "load_submodule b2 i = load_submodule a2 i"
      using r2 by (rule load_submodule_restores) (use named nonram sub in \<open>simp_all add: d2 pn\<close>)
    then show ?thesis using Inr b2 by (simp add: for_each_append and_then_def)
  qed
  then show ?thesis by (simp add: db split [symmetric])
qed

lemma step_restores:
  assumes r: "modules_differ D a b"
    and i: "i < part_count (desc a)"
    and named: "part_names (desc a) ! i \<noteq> None"
    and nonram: "\<not> grci_string_matches (name (parts (desc a) ! i)) ''Ram64K''"
    and sub: "D \<subseteq> set (part_nodes a i)"
  shows "grci_step_module b = grci_step_module a"
proof -
  have db: "desc b = desc a" using r by (rule modules_differ_fields(1))
  have pre: "rel_sum (=) (modules_differ D)
      (for_each publish_input a [0..<input_count (desc a)])
      (for_each publish_input b [0..<input_count (desc a)])"
    using r by (rule for_each_rel) (rule publish_input_rel)
  show ?thesis
  proof (cases "for_each publish_input a [0..<input_count (desc a)]")
    case (Inl e)
    with pre have "for_each publish_input b [0..<input_count (desc a)] = Inl e"
      by (cases "for_each publish_input b [0..<input_count (desc a)]") simp_all
    with Inl show ?thesis by (simp add: grci_step_module_def and_then_def db)
  next
    case (Inr a1)
    with pre obtain b1 where b1: "for_each publish_input b [0..<input_count (desc a)] = Inr b1"
      and r1: "modules_differ D a1 b1"
      by (cases "for_each publish_input b [0..<input_count (desc a)]") simp_all
    have inst: "same_instance a a1" using Inr by (rule publish_inputs_Inr(1))
    have "same_by last_state_of (sim a) (sim a1)"
      using Inr ignores_constant_last_state_of by (rule publish_inputs_Inr(4))
    then have dn: "dff_nodes (sim a1) = dff_nodes (sim a)" by (simp add: same_by_def)
    have d1: "desc a1 = desc a" and o1: "dff_off_len a1 = dff_off_len a"
      using inst by (simp_all add: same_instance_def)
    have pn: "part_nodes a1 i = part_nodes a i" by (simp add: part_nodes_def dn o1)
    have "for_each load_submodule b1 [0..<part_count (desc b1)]
        = for_each load_submodule a1 [0..<part_count (desc a1)]"
      using r1
      by (rule load_submodules_restore [where i = i])
         (use i named nonram sub in \<open>simp_all add: d1 pn\<close>)
    then show ?thesis using Inr b1 by (simp add: grci_step_module_def and_then_def db)
  qed
qed

lemma write_states_all:
  assumes i: "i < length (submodules n)" and len: "length vs = length (states (submodules n ! i))"
  shows "write_states n i 0 vs = n\<lparr>submodules := (submodules n)[i := (submodules n ! i)\<lparr>states := vs\<rparr>]\<rparr>"
proof -
  let ?w = "write_states n i 0 vs"
  have cnt: "state_count (submodules ?w ! i) = state_count (submodules n ! i)"
    and l: "length (states (submodules ?w ! i)) = length (states (submodules n ! i))"
    using write_states_state_count [OF i] by simp_all
  have "states (submodules ?w ! i) = vs"
  proof (rule nth_equalityI)
    show "length (states (submodules ?w ! i)) = length vs" using l len by simp
  next
    fix k assume "k < length (states (submodules ?w ! i))"
    then have k: "k < length (states (submodules n ! i))" using l by simp
    show "states (submodules ?w ! i) ! k = vs ! k"
      using write_states_nth [OF i k, of 0 vs] k len by simp
  qed
  then have "submodules ?w ! i = (submodules n ! i)\<lparr>states := vs\<rparr>"
    using cnt by (intro grci_submodule.equality) simp_all
  then have "submodules ?w = (submodules n)[i := (submodules n ! i)\<lparr>states := vs\<rparr>]"
    using i
    by (intro nth_equalityI)
       (auto simp: write_states_other_fields write_states_other_submodules nth_update_if)
  then show ?thesis
    by (intro grci_module.equality) (simp_all add: write_states_other_fields)
qed

text \<open>
  C5. After a step the state buffer of a named part that is not a \<open>Ram64K\<close> holds the
  \<open>last_state\<close> of the nodes of the part: this is the snapshot the caller reads. Whatever
  then happens to the \<open>last_state\<close> and \<open>cached_state\<close> of these nodes (\<open>ns\<close>) and to the
  contents of the buffer (\<open>sts\<close>), once the caller has written the snapshot back into the
  buffer the next step is, for every input vector, the step of the untouched module: the
  same outputs, the same new state, or the same abort. The first loop of
  \<open>grci_step_module\<close> overwrites both fields of every node of the part from the buffer.
\<close>

theorem snapshot_restore_same_step:
  assumes step: "grci_step_module m0 = Inr (m, level)"
    and look: "fst (grci_submodule (desc m) nm buf) = Some i"
    and nonram: "\<not> grci_string_matches (name (parts (desc m) ! i)) ''Ram64K''"
    and i: "i < length (submodules m)"
    and sts: "length sts = length (read_states m i)"
    and ns: "differs_in_states (set (part_nodes m i)) (nodes (sim m)) ns"
  shows "(\<forall>j < snd (dff_off_len m ! i).
            get_last_state (nodes (sim m) ! (dff_nodes (sim m) ! (j + fst (dff_off_len m ! i))))
              = Inr (read_states m i ! j))
    \<and> grci_step_module
         ((write_states
             (m\<lparr>sim := (sim m)\<lparr>nodes := ns\<rparr>,
                submodules := (submodules m)[i := (submodules m ! i)\<lparr>states := sts\<rparr>]\<rparr>)
             i 0 (read_states m i))
          \<lparr>inputs := inp\<rparr>)
       = grci_step_module (m\<lparr>inputs := inp\<rparr>)"
proof
  note l = grci_submodule_Some [OF look]
  have "buffers_in_sync m" using step by (rule grci_step_module_sync)
  then have "part_in_sync m i" using l(1) by (simp add: buffers_in_sync_def)
  then show "\<forall>j < snd (dff_off_len m ! i).
            get_last_state (nodes (sim m) ! (dff_nodes (sim m) ! (j + fst (dff_off_len m ! i))))
              = Inr (read_states m i ! j)"
    using l(3) nonram by (simp add: part_in_sync_def read_states_def)
  let ?n = "m\<lparr>sim := (sim m)\<lparr>nodes := ns\<rparr>,
               submodules := (submodules m)[i := (submodules m ! i)\<lparr>states := sts\<rparr>]\<rparr>"
  let ?a = "m\<lparr>inputs := inp\<rparr>"
  let ?b = "m\<lparr>sim := (sim m)\<lparr>nodes := ns\<rparr>, inputs := inp\<rparr>"
  have "write_states ?n i 0 (read_states m i)
      = ?n\<lparr>submodules := (submodules ?n)[i := (submodules ?n ! i)\<lparr>states := read_states m i\<rparr>]\<rparr>"
    using i sts by (intro write_states_all) (simp_all add: read_states_def)
  also have "\<dots> = m\<lparr>sim := (sim m)\<lparr>nodes := ns\<rparr>\<rparr>"
    using i by (simp add: read_states_def)
  finally have w: "(write_states ?n i 0 (read_states m i))\<lparr>inputs := inp\<rparr> = ?b" by simp
  have "sims_differ (set (part_nodes m i)) (sim ?a) (sim ?b)"
    using ns by (simp add: sims_differ_def)
  then have r: "modules_differ (set (part_nodes m i)) ?a ?b"
    by (simp add: modules_differ_def)
  have "grci_step_module ?b = grci_step_module ?a"
    using r
  proof (rule step_restores [where i = i])
    show "i < part_count (desc ?a)" using l(1) by simp
    show "part_names (desc ?a) ! i \<noteq> None" using l(3) by simp
    show "\<not> grci_string_matches (name (parts (desc ?a) ! i)) ''Ram64K''" using nonram by simp
    show "set (part_nodes m i) \<subseteq> set (part_nodes ?a i)" by (simp add: part_nodes_def)
  qed
  then show "grci_step_module ((write_states ?n i 0 (read_states m i))\<lparr>inputs := inp\<rparr>)
      = grci_step_module ?a"
    by (simp only: w)
qed

theorem snapshot_restore_same_step_witness:
  "get_last_state (nodes (sim (fst (projr (grci_step_module (example_shift True False False False False False))))) ! 3) = Inr (read_states (fst (projr (grci_step_module (example_shift True False False False False False)))) 0 ! 0)
   \<and> grci_step_module
        ((write_states
            ((fst (projr (grci_step_module (example_shift True False False False False False))))\<lparr>sim := (sim (fst (projr (grci_step_module (example_shift True False False False False False)))))\<lparr>nodes := ((nodes (sim (fst (projr (grci_step_module (example_shift True False False False False False))))))[3 := (nodes (sim (fst (projr (grci_step_module (example_shift True False False False False False))))) ! 3)\<lparr>node_as := Dff (Some 5) False, cached_state := False\<rparr>])\<rparr>,
                submodules := (submodules (fst (projr (grci_step_module (example_shift True False False False False False)))))[0 := (submodules (fst (projr (grci_step_module (example_shift True False False False False False)))) ! 0)\<lparr>states := [False]\<rparr>]\<rparr>)
            0 0 (read_states (fst (projr (grci_step_module (example_shift True False False False False False)))) 0))
         \<lparr>inputs := [False]\<rparr>)
      = grci_step_module ((fst (projr (grci_step_module (example_shift True False False False False False))))\<lparr>inputs := [False]\<rparr>)"
proof -
  let ?m0 = "example_shift True False False False False False"
  let ?M = "fst (projr (grci_step_module ?m0))"
  let ?ns = "(nodes (sim ?M))
      [3 := (nodes (sim ?M) ! 3)\<lparr>node_as := Dff (Some 5) False, cached_state := False\<rparr>]"
  have "\<not> isl (grci_step_module ?m0)"
    by code_simp
  then have a: "grci_step_module ?m0 = Inr (?M, snd (projr (grci_step_module ?m0)))"
    by (simp add: sum.collapse(2))
  have b: "fst (grci_submodule (desc ?M) ''a'' []) = Some 0"
    by code_simp
  have c: "\<not> grci_string_matches (name (parts (desc ?M) ! 0)) ''Ram64K''"
    by code_simp
  have d: "0 < length (submodules ?M)"
    by code_simp
  have e: "length [False] = length (read_states ?M 0)"
    by code_simp
  have f: "differs_in_states (set (part_nodes ?M 0)) (nodes (sim ?M)) ?ns"
    by code_simp
  have g: "0 < snd (dff_off_len ?M ! 0)"
    and h: "dff_nodes (sim ?M) ! (0 + fst (dff_off_len ?M ! 0)) = 3"
    by code_simp+
  note t = snapshot_restore_same_step [OF a b c d e f, of "[False]"]
  from t have "get_last_state (nodes (sim ?M) ! (dff_nodes (sim ?M) ! (0 + fst (dff_off_len ?M ! 0))))
      = Inr (read_states ?M 0 ! 0)"
    using g by blast
  then have "get_last_state (nodes (sim ?M) ! 3) = Inr (read_states ?M 0 ! 0)"
    by (simp only: h)
  with t show ?thesis by blast
qed

end
